theory Spec2Isabelle
  imports Main "HOL-Library.Word" "HOL-Library.Sublist" "HOL-Library.Multiset"
begin

unbundle bit_operations_syntax

section \<open>Memory and slices (API/fleece/slice.hh)\<close>

text \<open>
  Raw memory is a total map from addresses to bytes. Address \<open>0\<close> is \<open>nullptr\<close>.
  \<open>size_t\<close> is taken to be 64 bits wide, so that \<open>bufSize-1\<close> wraps as it does in C++.
\<close>

type_synonym byte = "8 word"
type_synonym size_t = "64 word"
type_synonym addr = nat
type_synonym memory = "addr \<Rightarrow> byte"

text \<open>\<open>struct pure_slice { const void* const buf; size_t const size; }\<close>\<close>

record pure_slice =
  buf :: addr
  size' :: size_t

text \<open>The bytes a slice views: \<open>size\<close> bytes starting at \<open>buf\<close>.\<close>

definition load :: "memory \<Rightarrow> addr \<Rightarrow> nat \<Rightarrow> byte list" where
  "load mem p n = map (\<lambda>i. mem (p + i)) [0..<n]"

definition slice_bytes :: "memory \<Rightarrow> pure_slice \<Rightarrow> byte list" where
  "slice_bytes mem s = load mem (buf s) (unat (size' s))"

text \<open>
  libc \<open>memcmp\<close>: the sign of the result is the sign of the difference of the first pair of
  bytes, read as \<open>unsigned char\<close>, that differ; \<open>0\<close> when the first \<open>n\<close> bytes agree.
  The model returns that difference itself.
\<close>

fun memcmp_bytes :: "byte list \<Rightarrow> byte list \<Rightarrow> int" where
  "memcmp_bytes (x # xs) (y # ys) = (if x = y then memcmp_bytes xs ys else uint x - uint y)"
| "memcmp_bytes _ _ = 0"

definition memcmp :: "memory \<Rightarrow> addr \<Rightarrow> addr \<Rightarrow> nat \<Rightarrow> int" where
  "memcmp mem p q n = memcmp_bytes (load mem p n) (load mem q n)"

text \<open>\<open>pure_slice::compare\<close>, slice.hh lines 522-534.\<close>

definition compare :: "memory \<Rightarrow> pure_slice \<Rightarrow> pure_slice \<Rightarrow> int" where
  "compare mem this b =
     (if size' this = size' b then memcmp mem (buf this) (buf b) (unat (size' this))
      else if size' this < size' b then
        (let result = memcmp mem (buf this) (buf b) (unat (size' this))
         in if result \<noteq> 0 then result else -1)
      else
        (let result = memcmp mem (buf this) (buf b) (unat (size' b))
         in if result \<noteq> 0 then result else 1))"

text \<open>\<open>pure_slice::operator==\<close>, slice.hh lines 143-144.\<close>

definition slice_eq :: "memory \<Rightarrow> pure_slice \<Rightarrow> pure_slice \<Rightarrow> bool" where
  "slice_eq mem this s \<longleftrightarrow> size' this = size' s \<and> memcmp mem (buf this) (buf s) (unat (size' this)) = 0"

text \<open>
  The order the specification describes, written from its words: \<open>xs\<close> is below \<open>ys\<close>
  when it is a strict prefix of \<open>ys\<close>, or when at the first position where they differ the
  byte of \<open>xs\<close> is the smaller one (bytes compared unsigned).
\<close>

definition first_diff_less :: "byte list \<Rightarrow> byte list \<Rightarrow> bool" where
  "first_diff_less xs ys \<longleftrightarrow> (\<exists>u x y v w. xs = u @ x # v \<and> ys = u @ y # w \<and> x < y)"

definition lex_less :: "byte list \<Rightarrow> byte list \<Rightarrow> bool" where
  "lex_less xs ys \<longleftrightarrow> strict_prefix xs ys \<or> first_diff_less xs ys"

text \<open>
  libc \<open>memcpy\<close>: the \<open>n\<close> bytes at \<open>dst\<close> become the \<open>n\<close> bytes that were at \<open>src\<close>;
  every other address keeps its byte.
\<close>

definition memcpy :: "memory \<Rightarrow> addr \<Rightarrow> addr \<Rightarrow> nat \<Rightarrow> memory" where
  "memcpy mem dst src n = (\<lambda>a. if dst \<le> a \<and> a < dst + n then mem (src + (a - dst)) else mem a)"


text \<open>A memory used in examples: every byte is \<open>0xFF\<close>.\<close>

definition mem_ff :: memory where
  "mem_ff = (\<lambda>_. 0xFF)"

text \<open>Another one: the byte at address \<open>a\<close> is \<open>a + 96\<close>, so the letters \<open>abc\<close> start at \<open>1\<close>.\<close>

definition mem_abc :: memory where
  "mem_abc = (\<lambda>a. word_of_nat (a + 96))"


section \<open>Unsigned varints (Fleece/Support/varint.hh)\<close>

definition kMaxVarintLen16 :: nat where "kMaxVarintLen16 = 3"
definition kMaxVarintLen32 :: nat where "kMaxVarintLen32 = 5"
definition kMaxVarintLen64 :: nat where "kMaxVarintLen64 = 10"

text \<open>
  Modelled from the spec: \<open>_GetUVarInt\<close> and \<open>_GetUVarInt32\<close> are only declared in varint.hh
  (lines 50-51); their bodies are not part of the sources at hand. The specification (4.B, 7):
  read bytes, or-ing \<open>(byte & 0x7F) << shift\<close> into the number, and stop at the first byte
  whose high bit is clear (tested as the inline functions test it, \<open>byte < 0x80\<close>); fail when
  the buffer is exhausted before that byte or when more than 10 bytes (\<open>kMaxVarintLen64\<close>)
  would be consumed; a failure returns zero bytes read and does not modify the output.
  \<open>decode_loop k bs shift acc cnt\<close> may still read \<open>k\<close> bytes. The 32-bit decoder runs the same
  loop and, following the comment at lines 70-72 (invalid data is a buffer too short or a
  number too long), also rejects a number that does not fit its 32-bit output.
\<close>

fun decode_loop :: "nat \<Rightarrow> byte list \<Rightarrow> nat \<Rightarrow> 'a::len word \<Rightarrow> nat \<Rightarrow> (nat \<times> 'a word) option" where
  "decode_loop 0 bs shift acc cnt = None"
| "decode_loop (Suc k) [] shift acc cnt = None"
| "decode_loop (Suc k) (b # bs) shift acc cnt =
     (let acc' = acc OR push_bit shift (ucast (b AND 0x7F))
      in if b < 0x80 then Some (Suc cnt, acc')
         else decode_loop k bs (shift + 7) acc' (Suc cnt))"

definition slow_GetUVarInt :: "memory \<Rightarrow> pure_slice \<Rightarrow> 64 word \<Rightarrow> size_t \<times> 64 word" where
  "slow_GetUVarInt mem sl n =
     (case decode_loop kMaxVarintLen64 (slice_bytes mem sl) 0 0 0 of
        None \<Rightarrow> (0, n)
      | Some (cnt, v) \<Rightarrow> (of_nat cnt, v))"

definition slow_GetUVarInt32 :: "memory \<Rightarrow> pure_slice \<Rightarrow> 32 word \<Rightarrow> size_t \<times> 32 word" where
  "slow_GetUVarInt32 mem sl n =
     (case decode_loop kMaxVarintLen64 (slice_bytes mem sl) 0 (0::64 word) 0 of
        None \<Rightarrow> (0, n)
      | Some (cnt, v) \<Rightarrow> if 0xFFFFFFFF < v then (0, n) else (of_nat cnt, ucast v))"

text \<open>
  \<open>GetUVarInt\<close>, varint.hh lines 57-67, and \<open>GetUVarInt32\<close>, lines 73-83. The argument \<open>n\<close>
  is the value of \<open>*n\<close> before the call; the result is the number of bytes read and the value
  of \<open>*n\<close> after the call. \<open>buf[0]\<close> is the byte at address \<open>buf\<close>.
\<close>

definition GetUVarInt :: "memory \<Rightarrow> pure_slice \<Rightarrow> 64 word \<Rightarrow> size_t \<times> 64 word" where
  "GetUVarInt mem sl n =
     (if size' sl = 0 then (0, n)
      else let byte = mem (buf sl + 0)
           in if byte < 0x80 then (1, ucast byte)
              else slow_GetUVarInt mem sl n)"

definition GetUVarInt32 :: "memory \<Rightarrow> pure_slice \<Rightarrow> 32 word \<Rightarrow> size_t \<times> 32 word" where
  "GetUVarInt32 mem sl n =
     (if size' sl = 0 then (0, n)
      else let byte = mem (buf sl + 0)
           in if byte < 0x80 then (1, ucast byte)
              else slow_GetUVarInt32 mem sl n)"

text \<open>
  A decoding failure: among the bytes the decoder may read (the first \<open>maxLen\<close> bytes of the
  buffer) none has its high bit clear. This covers the empty buffer, the buffer exhausted in
  the middle of a number, and the number longer than the maximum.
\<close>

definition decode_fails :: "nat \<Rightarrow> byte list \<Rightarrow> bool" where
  "decode_fails maxLen bs \<longleftrightarrow> list_all (\<lambda>b. 0x80 \<le> b) (take maxLen bs)"


section \<open>Owning buffers (alloc\_slice, API/fleece/slice.hh)\<close>

text \<open>
  The heap: the memory, the reference count of the block that starts at each address (\<open>0\<close> for
  an address where no live block starts) and the first address never handed out so far.
\<close>

record heap =
  hmem :: memory
  refs :: "addr \<Rightarrow> nat"
  brk :: addr

text \<open>
  Modelled from the spec: \<open>FLSliceResult_New\<close>, \<open>_FLBuf_Retain\<close> and \<open>_FLBuf_Release\<close> are
  declared in FLSlice.h, which is not part of the sources at hand. The specification (3, 4.A):
  an owning buffer is a heap block with a reference count; construction allocates a
  zero-initialized buffer of the given size; retain increments the count, release decrements
  it and the block is freed at zero; allocation never returns null. The allocator below hands
  out addresses above everything allocated before and never reuses one.
\<close>

definition FLSliceResult_New :: "heap \<Rightarrow> size_t \<Rightarrow> heap \<times> pure_slice" where
  "FLSliceResult_New h sz =
     (let p = Suc (brk h)
      in (h\<lparr>hmem := (\<lambda>a. if p \<le> a \<and> a < p + unat sz then 0 else hmem h a),
            refs := (refs h)(p := 1),
            brk := p + unat sz\<rparr>,
          \<lparr>buf = p, size' = sz\<rparr>))"

definition FLBuf_Retain :: "heap \<Rightarrow> addr \<Rightarrow> heap" where
  "FLBuf_Retain h p = (if p = 0 then h else h\<lparr>refs := (refs h)(p := Suc (refs h p))\<rparr>)"

definition FLBuf_Release :: "heap \<Rightarrow> addr \<Rightarrow> heap" where
  "FLBuf_Release h p = (if p = 0 then h else h\<lparr>refs := (refs h)(p := refs h p - 1)\<rparr>)"

text \<open>
  \<open>alloc_slice::alloc_slice(size_t)\<close>, slice.hh lines 680-685: adopts the result of
  \<open>FLSliceResult_New\<close> without retaining it (line 363). Its \<open>failBadAlloc\<close> branch is dead:
  the allocator never returns null.
\<close>

definition alloc_slice_sz :: "heap \<Rightarrow> size_t \<Rightarrow> heap \<times> pure_slice" where
  "alloc_slice_sz h sz = FLSliceResult_New h sz"

text \<open>\<open>alloc_slice::~alloc_slice\<close>, line 328.\<close>

definition alloc_slice_dtor :: "heap \<Rightarrow> pure_slice \<Rightarrow> heap" where
  "alloc_slice_dtor h s = FLBuf_Release h (buf s)"

text \<open>
  Move assignment, lines 332-335: \<open>std::swap\<close> of the two slices. The result is the new
  \<open>*this\<close> and the new source.
\<close>

definition move_assign :: "pure_slice \<Rightarrow> pure_slice \<Rightarrow> pure_slice \<times> pure_slice" where
  "move_assign this s = (s, this)"

text \<open>
  \<open>alloc_slice::reset(size_t)\<close>, line 350: \<open>*this = alloc_slice(sz)\<close>; the temporary, which
  holds the old \<open>*this\<close> after the swap, is destroyed at the end of the statement.
\<close>

definition reset_sz :: "heap \<Rightarrow> pure_slice \<Rightarrow> size_t \<Rightarrow> heap \<times> pure_slice" where
  "reset_sz h this sz =
     (let (h1, tmp) = alloc_slice_sz h sz;
          (this', tmp') = move_assign this tmp
      in (alloc_slice_dtor h1 tmp', this'))"

text \<open>
  \<open>alloc_slice::resize\<close>, lines 729-741. \<open>newSlice\<close>, which holds the old \<open>*this\<close> after the
  move assignment, is destroyed when the block ends.
\<close>

definition resize :: "heap \<Rightarrow> pure_slice \<Rightarrow> size_t \<Rightarrow> heap \<times> pure_slice" where
  "resize h this newSize =
     (if newSize = size' this then (h, this)
      else if buf this = 0 then reset_sz h this newSize
      else
        (let (h1, newSlice) = alloc_slice_sz h newSize;
             h2 = h1\<lparr>hmem := memcpy (hmem h1) (buf newSlice) (buf this)
                                (unat (min (size' this) newSize))\<rparr>;
             (this', newSlice') = move_assign this newSlice
         in (alloc_slice_dtor h2 newSlice', this')))"

text \<open>
  A well-formed owning buffer: null with size \<open>0\<close>, or the start of a live block whose bytes
  lie inside the allocated part of the heap.
\<close>

definition alloc_valid :: "heap \<Rightarrow> pure_slice \<Rightarrow> bool" where
  "alloc_valid h s \<longleftrightarrow>
     (if buf s = 0 then size' s = 0
      else 0 < refs h (buf s) \<and> buf s + unat (size' s) \<le> brk h)"

text \<open>A heap used in examples: one live block of three bytes at address \<open>1\<close>.\<close>

definition heap_abc :: heap where
  "heap_abc = \<lparr>hmem = mem_abc, refs = (\<lambda>a. if a = 1 then 2 else 0), brk = 4\<rparr>"


section \<open>The mutable dictionary (Fleece/Mutable/MDict.hh)\<close>

text \<open>
  Keys are slices; \<open>_map\<close> hashes and compares them by their bytes, and \<open>_setInMap\<close> stores
  a copy of the bytes in \<open>_newKeys\<close> before the key enters the map, so a key is modelled by
  its bytes.
\<close>

type_synonym key = "byte list"

text \<open>
  Modelled from the spec: \<open>MValue\<close> (MValue.hh is not part of the sources at hand). The
  specification (3, 9): a tagged variant, one of empty (the tombstone), a materialized native
  value, or a reference to an immutable encoded value; it exposes \<open>isEmpty()\<close>. \<open>'n\<close> is the
  native type, \<open>'v\<close> the type of non-null \<open>const Value*\<close>; \<open>MValue()\<close> is \<open>MVEmpty\<close> and
  \<open>MValue(value)\<close> is \<open>MVEncoded value\<close>.
\<close>

datatype ('n, 'v) MValue = MVEmpty | MVNative 'n | MVEncoded 'v

fun isEmpty :: "('n, 'v) MValue \<Rightarrow> bool" where
  "isEmpty MVEmpty = True"
| "isEmpty (MVNative x) = False"
| "isEmpty (MVEncoded v) = False"

text \<open>
  Modelled from the spec: the immutable \<open>Dict\<close> and the shared keys (Dict.hh and
  SharedKeys.hh are not part of the sources at hand). The specification (glossary): shared
  keys are an external interning map of dictionary keys that the immutable reader may consult
  to resolve short integer key tags back to key strings. An encoded dictionary is the list of
  its entries in their native order; an entry's key is a string or an integer tag. A lookup or
  an iteration that is given the shared keys resolves tags through them; one that is not
  given them (\<open>None\<close>, the null pointer) sees the string keys only.
\<close>

datatype DictKey = KString key | KShared nat

type_synonym 'v Dict = "(DictKey \<times> 'v) list"
type_synonym SharedKeys = "key list"

fun resolve_key :: "SharedKeys option \<Rightarrow> DictKey \<Rightarrow> key option" where
  "resolve_key sk (KString k) = Some k"
| "resolve_key None (KShared i) = None"
| "resolve_key (Some tbl) (KShared i) = (if i < length tbl then Some (tbl ! i) else None)"

text \<open>\<open>Dict::get(key, sharedKeys)\<close>; \<open>Dict::get(key)\<close> is \<open>Dict_get d key None\<close>.\<close>

fun Dict_get :: "'v Dict \<Rightarrow> key \<Rightarrow> SharedKeys option \<Rightarrow> 'v option" where
  "Dict_get [] k sk = None"
| "Dict_get ((ek, v) # es) k sk =
     (if resolve_key sk ek = Some k then Some v else Dict_get es k sk)"

text \<open>\<open>Dict::count()\<close>, a \<open>uint32_t\<close>.\<close>

definition Dict_count :: "'v Dict \<Rightarrow> 32 word" where
  "Dict_count d = word_of_nat (length d)"

text \<open>
  \<open>Dict::iterator(dict, sharedKeys)\<close>: the pairs \<open>(i.keyString(), i.value())\<close> in the order
  of the iteration. A tag that cannot be resolved gives the null slice, whose bytes are \<open>[]\<close>.
\<close>

definition keyString :: "SharedKeys option \<Rightarrow> DictKey \<Rightarrow> key" where
  "keyString sk ek = (case resolve_key sk ek of Some k \<Rightarrow> k | None \<Rightarrow> [])"

definition Dict_iterator :: "'v Dict \<Rightarrow> SharedKeys option \<Rightarrow> (key \<times> 'v) list" where
  "Dict_iterator d sk = map (\<lambda>e. (keyString sk (fst e), snd e)) d"

text \<open>
  A well-formed encoded dictionary, read with the shared keys \<open>sk\<close>: every key resolves and
  no key occurs twice.
\<close>

definition wf_Dict :: "SharedKeys option \<Rightarrow> 'v Dict \<Rightarrow> bool" where
  "wf_Dict sk d \<longleftrightarrow>
     list_all (\<lambda>e. resolve_key sk (fst e) \<noteq> None) d \<and>
     distinct (map (\<lambda>e. resolve_key sk (fst e)) d)"

text \<open>
  Modelled from the spec: \<open>MCollection\<close> (MCollection.hh is not part of the sources at hand).
  The specification (3, 4.D): a mutated flag and a parent back-reference; \<open>init\<close> installs the
  back-references; \<open>mutate()\<close> sets the flag on the collection and walks toward the root
  marking ancestors until one already marked is found. \<open>m_ancestors\<close> holds the flags of
  the parent chain, nearest first; \<open>m_sharedKeys\<close> is the member \<open>_sharedKeys\<close> that MDict.hh
  reads (\<open>None\<close> is the null pointer).
\<close>

record MCollection =
  m_mutated :: bool
  m_sharedKeys :: "SharedKeys option"
  m_ancestors :: "bool list"

fun mark_ancestors :: "bool list \<Rightarrow> bool list" where
  "mark_ancestors [] = []"
| "mark_ancestors (p # ps) = (if p then p # ps else True # mark_ancestors ps)"

definition mutate :: "'a MCollection_scheme \<Rightarrow> 'a MCollection_scheme" where
  "mutate c = (if m_mutated c then c
               else c\<lparr>m_mutated := True, m_ancestors := mark_ancestors (m_ancestors c)\<rparr>)"

definition MCollection_init :: "'a MCollection_scheme \<Rightarrow> bool list \<Rightarrow> 'a MCollection_scheme" where
  "MCollection_init c parent = c\<lparr>m_ancestors := parent\<rparr>"

text \<open>
  \<open>class MDict : public MCollection\<close>, MDict.hh lines 132-136. The members \<open>_dict\<close>,
  \<open>_count\<close>, \<open>_map\<close> and \<open>_newKeys\<close> are the fields \<open>m_dict\<close>, \<open>m_count\<close>, \<open>m_map\<close> and
  \<open>m_newKeys\<close>. The \<open>std::unordered_map\<close> is an association list; its order stands for the
  unspecified iteration order of the hash table.
\<close>

record ('n, 'v) MDict = MCollection +
  m_dict :: "'v Dict"
  m_count :: "32 word"
  m_map :: "(key \<times> ('n, 'v) MValue) list"
  m_newKeys :: "key list"

text \<open>\<open>_map.find(key)\<close>: \<open>None\<close> is \<open>_map.end()\<close>.\<close>

definition map_find :: "(key \<times> 'a) list \<Rightarrow> key \<Rightarrow> 'a option" where
  "map_find m k = map_of m k"

text \<open>\<open>_map.emplace(key, val)\<close>: no effect when the key is already there.\<close>

definition map_emplace :: "(key \<times> 'a) list \<Rightarrow> key \<Rightarrow> 'a \<Rightarrow> (key \<times> 'a) list" where
  "map_emplace m k v = (case map_of m k of None \<Rightarrow> m @ [(k, v)] | Some _ \<Rightarrow> m)"

text \<open>\<open>i->second = val\<close> for the iterator \<open>i\<close> that \<open>find(key)\<close> returned.\<close>

definition map_assign :: "(key \<times> 'a) list \<Rightarrow> key \<Rightarrow> 'a \<Rightarrow> (key \<times> 'a) list" where
  "map_assign m k v = map (\<lambda>e. if fst e = k then (k, v) else e) m"

text \<open>
  \<open>MDict::init(MValue *mv, MCollection *parent)\<close>, lines 24-29; \<open>dict\<close> is the encoded
  dictionary \<open>mv->value()\<close> points to.
\<close>

definition MDict_init ::
  "('n, 'v) MDict \<Rightarrow> 'v Dict \<Rightarrow> bool list \<Rightarrow> ('n, 'v) MDict" where
  "MDict_init d dict parent =
     (MCollection_init d parent)\<lparr>m_dict := dict, m_count := Dict_count dict, m_map := []\<rparr>"

text \<open>\<open>MDict::count\<close>, lines 37-39.\<close>

definition MDict_count :: "('n, 'v) MDict \<Rightarrow> 32 word" where
  "MDict_count d = m_count d"

text \<open>\<open>MDict::contains\<close>, lines 41-47.\<close>

definition MDict_contains :: "('n, 'v) MDict \<Rightarrow> key \<Rightarrow> bool" where
  "MDict_contains d key =
     (case map_find (m_map d) key of
        Some v \<Rightarrow> \<not> isEmpty v
      | None \<Rightarrow> Dict_get (m_dict d) key (m_sharedKeys d) \<noteq> None)"

text \<open>\<open>MDict::_setInMap\<close>, lines 83-87.\<close>

definition MDict_setInMap :: "('n, 'v) MDict \<Rightarrow> key \<Rightarrow> ('n, 'v) MValue \<Rightarrow> ('n, 'v) MDict" where
  "MDict_setInMap d key val =
     d\<lparr>m_map := map_emplace (m_map d) key val, m_newKeys := m_newKeys d @ [key]\<rparr>"

text \<open>
  \<open>MDict::get\<close>, lines 49-58. The method is \<open>const\<close> but writes through a \<open>const_cast\<close>, so
  the model returns the dictionary after the call together with the result: \<open>None\<close> for
  \<open>nullptr\<close>, otherwise the value the returned pointer points to. Line 52 calls
  \<open>_dict->get(key)\<close> without the shared keys.
\<close>

definition MDict_get ::
  "('n, 'v) MDict \<Rightarrow> key \<Rightarrow> ('n, 'v) MDict \<times> ('n, 'v) MValue option" where
  "MDict_get d key =
     (case map_find (m_map d) key of
        None \<Rightarrow>
          (case Dict_get (m_dict d) key None of
             None \<Rightarrow> (d, None)
           | Some value \<Rightarrow>
               (let d' = MDict_setInMap d key (MVEncoded value)
                in (d', map_find (m_map d') key)))
      | Some v \<Rightarrow> (d, Some v))"

text \<open>
  \<open>MDict::set\<close>, lines 60-81. \<open>!val.isEmpty() - !i->second.isEmpty()\<close> is an \<open>int\<close> that is
  added to the \<open>uint32_t\<close> counter.
\<close>

definition MDict_set :: "('n, 'v) MDict \<Rightarrow> key \<Rightarrow> ('n, 'v) MValue \<Rightarrow> ('n, 'v) MDict" where
  "MDict_set d key val =
     (case map_find (m_map d) key of
        Some old \<Rightarrow>
          if isEmpty val \<and> isEmpty old then d
          else
            (let d1 = mutate d;
                 d2 = d1\<lparr>m_count := m_count d1
                        + word_of_int (of_bool (\<not> isEmpty val) - of_bool (\<not> isEmpty old))\<rparr>
             in d2\<lparr>m_map := map_assign (m_map d2) key val\<rparr>)
      | None \<Rightarrow>
          (case Dict_get (m_dict d) key (m_sharedKeys d) of
             Some _ \<Rightarrow>
               (let d1 = (if isEmpty val then d\<lparr>m_count := m_count d - 1\<rparr> else d)
                in MDict_setInMap (mutate d1) key val)
           | None \<Rightarrow>
               if isEmpty val then d
               else MDict_setInMap (mutate (d\<lparr>m_count := m_count d + 1\<rparr>)) key val))"

text \<open>\<open>MDict::remove\<close>, lines 89-91.\<close>

definition MDict_remove :: "('n, 'v) MDict \<Rightarrow> key \<Rightarrow> ('n, 'v) MDict" where
  "MDict_remove d key = MDict_set d key MVEmpty"

text \<open>
  \<open>MDict::enumerate\<close>, lines 103-114. The callback may have effects; it is a function that
  takes the key, the value and the state \<open>'s\<close> of the caller and returns the new state.
\<close>

definition MDict_enumerate ::
  "('n, 'v) MDict \<Rightarrow> (key \<Rightarrow> ('n, 'v) MValue \<Rightarrow> 's \<Rightarrow> 's) \<Rightarrow> 's \<Rightarrow> 's" where
  "MDict_enumerate d callback s0 =
     (let s1 = fold (\<lambda>item s. if \<not> isEmpty (snd item) then callback (fst item) (snd item) s else s)
                 (m_map d) s0
      in fold (\<lambda>i s. if map_find (m_map d) (fst i) = None
                       then callback (fst i) (MVEncoded (snd i)) s else s)
           (Dict_iterator (m_dict d) (m_sharedKeys d)) s1)"

text \<open>The calls a run of \<open>enumerate\<close> makes, in order: the callback records its arguments.\<close>

definition enumerate_calls :: "('n, 'v) MDict \<Rightarrow> (key \<times> ('n, 'v) MValue) list" where
  "enumerate_calls d = MDict_enumerate d (\<lambda>k v tr. tr @ [(k, v)]) []"

text \<open>
  The effective value of a key, from the words of the specification: its \<open>_map\<close> entry if one
  exists, otherwise its entry in the immutable \<open>_dict\<close>, otherwise empty.
\<close>

definition effective :: "('n, 'v) MDict \<Rightarrow> key \<Rightarrow> ('n, 'v) MValue" where
  "effective d k =
     (case map_of (m_map d) k of
        Some v \<Rightarrow> v
      | None \<Rightarrow>
          (case Dict_get (m_dict d) k (m_sharedKeys d) of
             Some v \<Rightarrow> MVEncoded v
           | None \<Rightarrow> MVEmpty))"

text \<open>The keys whose effective value is not empty.\<close>

definition live :: "('n, 'v) MDict \<Rightarrow> key set" where
  "live d = {k. \<not> isEmpty (effective d k)}"

text \<open>A sequence of \<open>set\<close> and \<open>remove\<close> calls.\<close>

datatype ('n, 'v) mdict_op = Set key "('n, 'v) MValue" | Remove key

fun apply_op :: "('n, 'v) MDict \<Rightarrow> ('n, 'v) mdict_op \<Rightarrow> ('n, 'v) MDict" where
  "apply_op d (Set k v) = MDict_set d k v"
| "apply_op d (Remove k) = MDict_remove d k"

definition apply_ops :: "('n, 'v) MDict \<Rightarrow> ('n, 'v) mdict_op list \<Rightarrow> ('n, 'v) MDict" where
  "apply_ops d ops = foldl apply_op d ops"

text \<open>
  Dictionaries used in examples. \<open>dict_shared\<close> is an encoded dictionary whose only key is the
  tag \<open>0\<close>, which the shared keys resolve to the string \<open>a\<close>. \<open>dict_ab\<close> has the string keys
  \<open>a\<close> and \<open>b\<close>.
\<close>

definition blank :: "(nat, nat) MDict" where
  "blank = \<lparr>m_mutated = False, m_sharedKeys = Some [[0x61]], m_ancestors = [False],
            m_dict = [], m_count = 0, m_map = [], m_newKeys = []\<rparr>"

definition dict_shared :: "nat Dict" where
  "dict_shared = [(KShared 0, 7)]"

definition dict_ab :: "nat Dict" where
  "dict_ab = [(KString [0x61], 1), (KString [0x62], 2)]"

text \<open>
  \<open>edited\<close> is the mutable dictionary over \<open>dict_ab\<close> after \<open>remove(a)\<close> and \<open>set(c, 5)\<close>: its map
  holds a tombstone for \<open>a\<close> and the new key \<open>c\<close>.
\<close>

definition edited :: "(nat, nat) MDict" where
  "edited = apply_ops (MDict_init blank dict_ab []) [Remove [0x61], Set [0x63] (MVNative 5)]"


section \<open>Comparison of slices\<close>

lemma first_diff_less_Cons: "first_diff_less (x # xs) (y # ys) \<longleftrightarrow> (if x = y then first_diff_less xs ys else x < y)"
  unfolding first_diff_less_def
  apply (rule iffI)
   apply (elim exE conjE)
  subgoal for u a b v w by (cases u) auto
  apply (auto split: if_splits)
   apply (metis append_Cons)
  by (metis append_Nil)

lemma first_diff_less_Nil [simp]: "\<not> first_diff_less [] ys" "\<not> first_diff_less xs []"
  by (auto simp: first_diff_less_def)

lemma memcmp_bytes_neg: "memcmp_bytes xs ys < 0 \<longleftrightarrow> first_diff_less xs ys"
  by (induction xs ys rule: memcmp_bytes.induct) (auto simp: first_diff_less_Cons word_less_def)

lemma memcmp_bytes_pos: "memcmp_bytes xs ys > 0 \<longleftrightarrow> first_diff_less ys xs"
  by (induction xs ys rule: memcmp_bytes.induct) (auto simp: first_diff_less_Cons word_less_def)

lemma memcmp_bytes_zero: "memcmp_bytes xs ys = 0 \<longleftrightarrow> prefix xs ys \<or> prefix ys xs"
  by (induction xs ys rule: memcmp_bytes.induct) (auto simp: word_uint_eq_iff)

lemma memcmp_bytes_take1: "length xs \<le> length ys \<Longrightarrow> memcmp_bytes xs (take (length xs) ys) = memcmp_bytes xs ys"
  by (induction xs ys rule: memcmp_bytes.induct) auto

lemma memcmp_bytes_take2: "length ys \<le> length xs \<Longrightarrow> memcmp_bytes (take (length ys) xs) ys = memcmp_bytes xs ys"
  by (induction xs ys rule: memcmp_bytes.induct) auto

lemma length_load [simp]: "length (load mem p n) = n"
  by (simp add: load_def)

lemma take_load: "n \<le> m \<Longrightarrow> take n (load mem p m) = load mem p n"
  by (simp add: load_def take_map)

lemma memcmp_slices:
  "unat n = min (unat (size' a)) (unat (size' b)) \<Longrightarrow>
   memcmp mem (buf a) (buf b) (unat n) = memcmp_bytes (slice_bytes mem a) (slice_bytes mem b)"
  unfolding memcmp_def slice_bytes_def
  by (metis length_load memcmp_bytes_take1 memcmp_bytes_take2 min.cobounded1 min.cobounded2 min_def take_load)

lemma first_diff_not_prefix: "first_diff_less xs ys \<Longrightarrow> \<not> prefix xs ys \<and> \<not> prefix ys xs"
  by (auto simp: first_diff_less_def prefix_def)

lemma compare_as_bytes:
  "compare mem a b =
     (let r = memcmp_bytes (slice_bytes mem a) (slice_bytes mem b) in
      if size' a = size' b then r
      else if size' a < size' b then (if r \<noteq> 0 then r else -1)
      else (if r \<noteq> 0 then r else 1))"
  unfolding compare_def Let_def
  by (auto simp: memcmp_slices word_less_nat_alt min_def)

lemma length_slice_bytes: "length (slice_bytes mem s) = unat (size' s)"
  by (simp add: slice_bytes_def)

lemma same_length_prefix: "length xs = length ys \<Longrightarrow> prefix xs ys \<or> prefix ys xs \<longleftrightarrow> xs = ys"
  by (auto simp: prefix_def)

lemma cmp_same_length:
  assumes "length xs = length ys"
  shows "(memcmp_bytes xs ys = 0 \<longleftrightarrow> xs = ys) \<and>
         (memcmp_bytes xs ys < 0 \<longleftrightarrow> lex_less xs ys) \<and>
         (0 < memcmp_bytes xs ys \<longleftrightarrow> lex_less ys xs)"
proof -
  have "\<not> strict_prefix xs ys" "\<not> strict_prefix ys xs"
    using assms by (auto dest: prefix_length_less)
  then show ?thesis
    using assms by (simp add: memcmp_bytes_zero memcmp_bytes_neg memcmp_bytes_pos
        lex_less_def same_length_prefix)
qed

lemma cmp_shorter:
  assumes "length xs < length ys"
  shows "(memcmp_bytes xs ys = 0 \<longleftrightarrow> strict_prefix xs ys) \<and>
         (memcmp_bytes xs ys < 0 \<longleftrightarrow> first_diff_less xs ys) \<and>
         (0 < memcmp_bytes xs ys \<longleftrightarrow> lex_less ys xs) \<and>
         (memcmp_bytes ys xs = 0 \<longleftrightarrow> strict_prefix xs ys) \<and>
         (memcmp_bytes ys xs < 0 \<longleftrightarrow> lex_less ys xs) \<and>
         (0 < memcmp_bytes ys xs \<longleftrightarrow> first_diff_less xs ys)"
proof -
  have "\<not> prefix ys xs" using assms by (auto dest: prefix_length_le)
  moreover have "xs \<noteq> ys" using assms by auto
  ultimately show ?thesis
    by (simp add: memcmp_bytes_zero memcmp_bytes_neg memcmp_bytes_pos
        lex_less_def strict_prefix_def)
qed

text \<open>
  Claim C2. \<open>compare\<close> is the lexicographic order on the bytes of the two slices, a strict
  prefix being below the longer string: the result is \<open>0\<close> exactly when sizes and bytes are
  equal, negative exactly when \<open>a\<close> is a strict prefix of \<open>b\<close> or has the smaller byte at the
  first difference, positive in the symmetric case; \<open>operator==\<close> holds exactly when sizes
  and bytes are equal.
\<close>

theorem compare_lexicographic:
  "(compare mem a b = 0 \<longleftrightarrow> size' a = size' b \<and> slice_bytes mem a = slice_bytes mem b) \<and>
   (compare mem a b < 0 \<longleftrightarrow> lex_less (slice_bytes mem a) (slice_bytes mem b)) \<and>
   (compare mem a b > 0 \<longleftrightarrow> lex_less (slice_bytes mem b) (slice_bytes mem a)) \<and>
   (slice_eq mem a b \<longleftrightarrow> size' a = size' b \<and> slice_bytes mem a = slice_bytes mem b)"
proof -
  let ?A = "slice_bytes mem a" and ?B = "slice_bytes mem b"
  let ?r = "memcmp_bytes ?A ?B"
  have eq: "slice_eq mem a b \<longleftrightarrow> size' a = size' b \<and> ?r = 0"
    unfolding slice_eq_def by (auto simp: memcmp_slices)
  consider (same) "size' a = size' b" | (shorter) "size' a < size' b" | (longer) "size' b < size' a"
    by (metis linorder_neqE)
  then show ?thesis
  proof cases
    case same
    then have l: "length ?A = length ?B" by (simp add: length_slice_bytes)
    have c: "compare mem a b = ?r" using same by (simp add: compare_as_bytes)
    show ?thesis
      unfolding c eq using same cmp_same_length[OF l] by simp
  next
    case shorter
    then have l: "length ?A < length ?B" by (simp add: word_less_nat_alt length_slice_bytes)
    have ne: "size' a \<noteq> size' b" using shorter by auto
    have c: "compare mem a b = (if ?r \<noteq> 0 then ?r else -1)"
      using shorter ne by (simp add: compare_as_bytes)
    have r: "?r < 0 \<or> ?r = 0 \<longleftrightarrow> lex_less ?A ?B"
      using cmp_shorter[OF l] by (auto simp: lex_less_def)
    have "compare mem a b \<noteq> 0" unfolding c by simp
    moreover have "compare mem a b < 0 \<longleftrightarrow> lex_less ?A ?B"
      unfolding c r[symmetric] by auto
    moreover have "0 < compare mem a b \<longleftrightarrow> lex_less ?B ?A"
      unfolding c using cmp_shorter[OF l] by auto
    ultimately show ?thesis
      using ne eq by simp
  next
    case longer
    then have l: "length ?B < length ?A" by (simp add: word_less_nat_alt length_slice_bytes)
    have ne: "size' a \<noteq> size' b" "\<not> size' a < size' b" using longer by auto
    have c: "compare mem a b = (if ?r \<noteq> 0 then ?r else 1)"
      using ne by (simp add: compare_as_bytes)
    have r: "0 < ?r \<or> ?r = 0 \<longleftrightarrow> lex_less ?B ?A"
      using cmp_shorter[OF l] by (auto simp: lex_less_def)
    have "compare mem a b \<noteq> 0" unfolding c by simp
    moreover have "0 < compare mem a b \<longleftrightarrow> lex_less ?B ?A"
      unfolding c r[symmetric] by auto
    moreover have "compare mem a b < 0 \<longleftrightarrow> lex_less ?A ?B"
      unfolding c using cmp_shorter[OF l] by auto
    ultimately show ?thesis
      using ne eq by simp
  qed
qed



text \<open>On the letters \<open>ab\<close> and \<open>abc\<close>: the prefix is below the longer string.\<close>

lemma compare_prefix_example:
  "compare mem_abc \<lparr>buf = 1, size' = 2\<rparr> \<lparr>buf = 1, size' = 3\<rparr> = -1 \<and>
   compare mem_abc \<lparr>buf = 1, size' = 3\<rparr> \<lparr>buf = 1, size' = 2\<rparr> = 1 \<and>
   compare mem_abc \<lparr>buf = 1, size' = 2\<rparr> \<lparr>buf = 2, size' = 2\<rparr> = -1 \<and>
   \<not> slice_eq mem_abc \<lparr>buf = 1, size' = 2\<rparr> \<lparr>buf = 1, size' = 3\<rparr>"
  by (simp add: compare_def slice_eq_def memcmp_def load_def mem_abc_def upt_rec)

section \<open>Decoding varints\<close>

lemma decode_loop_fails:
  "list_all (\<lambda>b. 0x80 \<le> b) (take k bs) \<Longrightarrow> decode_loop k bs shift acc cnt = None"
  by (induction k bs shift acc cnt rule: decode_loop.induct) (simp_all add: Let_def not_less)

lemma decode_loop_succeeds:
  "\<not> list_all (\<lambda>b. 0x80 \<le> b) (take k bs) \<Longrightarrow>
   \<exists>c v. decode_loop k bs shift acc cnt = Some (c, v) \<and> cnt < c \<and> c \<le> cnt + k"
proof (induction k bs shift acc cnt rule: decode_loop.induct)
  case (3 k b bs shift acc cnt)
  show ?case
  proof (cases "b < 0x80")
    case True
    then show ?thesis by (simp add: Let_def)
  next
    case False
    then have "\<not> list_all (\<lambda>b. 0x80 \<le> b) (take k bs)" using 3(2) by (simp add: not_less)
    from 3(1)[OF refl False this] obtain c v where
      "decode_loop k bs (shift + 7) (acc OR push_bit shift (ucast (b AND 0x7F))) (Suc cnt) = Some (c, v)"
      "Suc cnt < c" "c \<le> Suc cnt + k" by blast
    then show ?thesis using False by (simp add: Let_def)
  qed
qed simp_all

lemma slice_bytes_Cons:
  "slice_bytes mem sl = b # rest \<Longrightarrow> size' sl \<noteq> 0 \<and> mem (buf sl) = b"
  by (cases "unat (size' sl)")
     (auto simp: slice_bytes_def load_def upt_conv_Cons unat_eq_0 simp del: upt_Suc)

lemma slice_bytes_Nil: "slice_bytes mem sl = [] \<longleftrightarrow> size' sl = 0"
  by (simp add: slice_bytes_def load_def unat_eq_0)

lemma unat_ucast_byte:
  "unat (ucast (b::byte) :: 64 word) = unat b" "unat (ucast (b::byte) :: 32 word) = unat b"
proof -
  have "unat b < 2 ^ 8" using unsigned_less[of b, where ?'a=nat] by simp
  then have "unat b < 2 ^ 64" "unat b < 2 ^ 32" by simp_all
  then show "unat (ucast b :: 64 word) = unat b" "unat (ucast b :: 32 word) = unat b"
    by (simp_all add: unsigned_ucast_eq take_bit_nat_eq_self_iff)
qed

text \<open>
  Claim C5. When the first byte of the buffer is below \<open>0x80\<close>, \<open>GetUVarInt\<close> and
  \<open>GetUVarInt32\<close> return \<open>1\<close> and store exactly that byte's value into \<open>*n\<close>, whatever
  \<open>*n\<close> held before.
\<close>

theorem GetUVarInt_fast_path:
  assumes "slice_bytes mem sl = b # rest" and "b < 0x80"
  shows "GetUVarInt mem sl n = (1, ucast b) \<and> GetUVarInt32 mem sl n32 = (1, ucast b)
         \<and> unat (ucast b :: 64 word) = unat b \<and> unat (ucast b :: 32 word) = unat b"
proof -
  from slice_bytes_Cons[OF assms(1)] have "size' sl \<noteq> 0" "mem (buf sl) = b" by simp_all
  then show ?thesis using assms(2)
    by (simp add: GetUVarInt_def GetUVarInt32_def unat_ucast_byte)
qed

theorem GetUVarInt_fast_path_witness:
  "slice_bytes mem_abc \<lparr>buf = 1, size' = 2\<rparr> = [0x61, 0x62] \<and> (0x61::byte) < 0x80 \<and>
   GetUVarInt mem_abc \<lparr>buf = 1, size' = 2\<rparr> 0 = (1, 0x61) \<and>
   GetUVarInt32 mem_abc \<lparr>buf = 1, size' = 2\<rparr> 0 = (1, 0x61)"
proof -
  have sb: "slice_bytes mem_abc \<lparr>buf = 1, size' = 2\<rparr> = [0x61, 0x62]"
    by (simp add: slice_bytes_def load_def mem_abc_def upt_rec)
  have lt: "(0x61::byte) < 0x80" by simp
  show ?thesis using sb lt GetUVarInt_fast_path [OF sb lt, of 0 0] by simp
qed

lemma decode_fails_first:
  "decode_fails (Suc k) (slice_bytes mem sl) \<Longrightarrow> size' sl \<noteq> 0 \<Longrightarrow> \<not> mem (buf sl) < 0x80"
proof -
  assume f: "decode_fails (Suc k) (slice_bytes mem sl)" and nz: "size' sl \<noteq> 0"
  then obtain b rest where br: "slice_bytes mem sl = b # rest"
    by (cases "slice_bytes mem sl") (auto simp: slice_bytes_Nil)
  with f have "0x80 \<le> b" by (simp add: decode_fails_def)
  moreover have "mem (buf sl) = b" using slice_bytes_Cons[OF br] by simp
  ultimately show ?thesis by (simp add: not_less)
qed

text \<open>
  Claim C6. When decoding fails (the buffer is empty, or it is exhausted before a byte with
  a clear high bit, or the first \<open>kMaxVarintLen64\<close> bytes all have the high bit set),
  \<open>GetUVarInt\<close> and \<open>GetUVarInt32\<close> return \<open>0\<close> and \<open>*n\<close> keeps its value.
\<close>

theorem GetUVarInt_failure:
  "(decode_fails kMaxVarintLen64 (slice_bytes mem sl) \<longrightarrow> GetUVarInt mem sl n = (0, n)) \<and>
   (decode_fails kMaxVarintLen64 (slice_bytes mem sl) \<longrightarrow> GetUVarInt32 mem sl n32 = (0, n32))"
proof (intro conjI impI)
  assume f: "decode_fails kMaxVarintLen64 (slice_bytes mem sl)"
  then have "decode_loop kMaxVarintLen64 (slice_bytes mem sl) 0 (0::64 word) 0 = None"
    unfolding decode_fails_def by (rule decode_loop_fails)
  then have s: "slow_GetUVarInt mem sl n = (0, n)" by (simp add: slow_GetUVarInt_def)
  have "size' sl \<noteq> 0 \<Longrightarrow> \<not> mem (buf sl) < 0x80"
    using f decode_fails_first[of 9 mem sl] by (simp add: kMaxVarintLen64_def)
  then show "GetUVarInt mem sl n = (0, n)"
    using s by (auto simp: GetUVarInt_def)
next
  assume f: "decode_fails kMaxVarintLen64 (slice_bytes mem sl)"
  then have "decode_loop kMaxVarintLen64 (slice_bytes mem sl) 0 (0::64 word) 0 = None"
    unfolding decode_fails_def by (rule decode_loop_fails)
  then have s: "slow_GetUVarInt32 mem sl n32 = (0, n32)" by (simp add: slow_GetUVarInt32_def)
  have "size' sl \<noteq> 0 \<Longrightarrow> \<not> mem (buf sl) < 0x80"
    using f decode_fails_first[of 9 mem sl] by (simp add: kMaxVarintLen64_def)
  then show "GetUVarInt32 mem sl n32 = (0, n32)"
    using s by (auto simp: GetUVarInt32_def)
qed

theorem GetUVarInt_failure_witness:
  "decode_fails kMaxVarintLen64 (slice_bytes mem_ff \<lparr>buf = 1, size' = 3\<rparr>) \<and>
   GetUVarInt mem_ff \<lparr>buf = 1, size' = 3\<rparr> 42 = (0, 42) \<and>
   GetUVarInt32 mem_ff \<lparr>buf = 1, size' = 3\<rparr> 42 = (0, 42)"
proof -
  have sb: "slice_bytes mem_ff \<lparr>buf = 1, size' = 3\<rparr> = [0xFF, 0xFF, 0xFF]"
    by (simp add: slice_bytes_def load_def mem_ff_def upt_rec)
  have f: "decode_fails kMaxVarintLen64 (slice_bytes mem_ff \<lparr>buf = 1, size' = 3\<rparr>)"
    unfolding sb by (simp add: decode_fails_def kMaxVarintLen64_def)
  show ?thesis
    using f GetUVarInt_failure [of mem_ff "\<lparr>buf = 1, size' = 3\<rparr>" 42 42] by simp
qed

text \<open>The decoder does succeed elsewhere: the two bytes \<open>0x80 0x01\<close> decode to \<open>128\<close>.\<close>

lemma decode_loop_128:
  "decode_loop kMaxVarintLen64 [0x80, 0x01] 0 (0::64 word) 0 = Some (2, 128)"
proof -
  have "(1::byte) < 128" by (simp add: word_less_nat_alt)
  then show ?thesis by (simp add: kMaxVarintLen64_def eval_nat_numeral Let_def)
qed



section \<open>C-string export\<close>

lemma load_cong: "(\<And>i. i < n \<Longrightarrow> m1 (p + i) = m2 (q + i)) \<Longrightarrow> load m1 p n = load m2 q n"
  by (simp add: load_def)

lemma take_slice_bytes: "n \<le> unat (size' s) \<Longrightarrow> take n (slice_bytes mem s) = load mem (buf s) n"
  by (simp add: slice_bytes_def take_load)

lemma unat_min: "unat (min (a::'a::len word) b) = min (unat a) (unat b)"
  by (simp add: min_def word_le_nat_alt)






section \<open>Resizing an owning buffer\<close>

lemma resize_same: "resize h b (size' b) = (h, b)"
  by (simp add: resize_def)

lemma resize_null:
  "n \<noteq> size' b \<Longrightarrow> buf b = 0 \<Longrightarrow>
   resize h b n =
     (h\<lparr>hmem := (\<lambda>a. if Suc (brk h) \<le> a \<and> a < Suc (brk h) + unat n then 0 else hmem h a),
        refs := (refs h)(Suc (brk h) := 1),
        brk := Suc (brk h) + unat n\<rparr>,
      \<lparr>buf = Suc (brk h), size' = n\<rparr>)"
  by (simp add: resize_def reset_sz_def alloc_slice_sz_def FLSliceResult_New_def Let_def
      move_assign_def alloc_slice_dtor_def FLBuf_Release_def)

lemma resize_copy:
  "n \<noteq> size' b \<Longrightarrow> buf b \<noteq> 0 \<Longrightarrow>
   resize h b n =
     (h\<lparr>hmem := memcpy (\<lambda>a. if Suc (brk h) \<le> a \<and> a < Suc (brk h) + unat n then 0 else hmem h a)
                 (Suc (brk h)) (buf b) (unat (min (size' b) n)),
        refs := ((refs h)(Suc (brk h) := 1))(buf b := ((refs h)(Suc (brk h) := 1)) (buf b) - 1),
        brk := Suc (brk h) + unat n\<rparr>,
      \<lparr>buf = Suc (brk h), size' = n\<rparr>)"
  by (simp add: resize_def alloc_slice_sz_def FLSliceResult_New_def Let_def
      move_assign_def alloc_slice_dtor_def FLBuf_Release_def)

text \<open>
  Claim C7. For a well-formed owning buffer \<open>b\<close>, \<open>resize n\<close> changes nothing when \<open>n\<close> is
  the current size. Otherwise the result is a new block of size \<open>n\<close> at an address never
  handed out before, with reference count \<open>1\<close>; no byte of the memory allocated before the
  call changes, so the old block is not resized in place; when \<open>b\<close> was not null its old
  block loses one reference. In every case the first \<open>min oldSize n\<close> bytes of the result
  are the first \<open>min oldSize n\<close> bytes \<open>b\<close> had before the call.
\<close>

theorem resize_preserves_prefix:
  assumes "alloc_valid h b"
  shows
   "(n = size' b \<longrightarrow> resize h b n = (h, b)) \<and>
    (n \<noteq> size' b \<longrightarrow>
       buf (snd (resize h b n)) = Suc (brk h) \<and> buf (snd (resize h b n)) \<noteq> buf b \<and>
       size' (snd (resize h b n)) = n \<and>
       refs (fst (resize h b n)) (buf (snd (resize h b n))) = 1 \<and>
       alloc_valid (fst (resize h b n)) (snd (resize h b n)) \<and>
       (\<forall>a. a \<le> brk h \<longrightarrow> hmem (fst (resize h b n)) a = hmem h a) \<and>
       (buf b \<noteq> 0 \<longrightarrow> refs (fst (resize h b n)) (buf b) = refs h (buf b) - 1)) \<and>
    take (unat (min (size' b) n)) (slice_bytes (hmem (fst (resize h b n))) (snd (resize h b n)))
      = take (unat (min (size' b) n)) (slice_bytes (hmem h) b)"
proof (cases "n = size' b")
  case True
  then show ?thesis by (simp add: resize_same)
next
  case ne: False
  show ?thesis
  proof (cases "buf b = 0")
    case True
    then have "size' b = 0" using assms by (simp add: alloc_valid_def)
    then show ?thesis using ne True
      by (simp add: resize_null alloc_valid_def)
  next
    case False
    let ?k = "unat (min (size' b) n)"
    let ?p = "Suc (brk h)"
    have v: "0 < refs h (buf b)" "buf b + unat (size' b) \<le> brk h"
      using assms False by (simp_all add: alloc_valid_def)
    have k: "?k \<le> unat (size' b)" "?k \<le> unat n" by (simp_all add: unat_min)
    have neq: "buf b \<noteq> ?p" using v by simp
    have frame: "\<forall>a. a \<le> brk h \<longrightarrow> hmem (fst (resize h b n)) a = hmem h a"
      using ne False by (simp add: resize_copy memcpy_def)
    have "take ?k (slice_bytes (hmem (fst (resize h b n))) (snd (resize h b n)))
            = load (hmem (fst (resize h b n))) ?p ?k"
      using ne False k by (simp add: resize_copy take_slice_bytes)
    also have "\<dots> = load (hmem h) (buf b) ?k"
    proof (rule load_cong)
      fix i assume i: "i < ?k"
      then have "buf b + i \<le> brk h" using v k by simp
      then show "hmem (fst (resize h b n)) (?p + i) = hmem h (buf b + i)"
        using ne False i by (simp add: resize_copy memcpy_def)
    qed
    also have "\<dots> = take ?k (slice_bytes (hmem h) b)"
      using k by (simp add: take_slice_bytes)
    finally have pre: "take ?k (slice_bytes (hmem (fst (resize h b n))) (snd (resize h b n)))
                        = take ?k (slice_bytes (hmem h) b)" .
    have rest: "buf (snd (resize h b n)) = ?p" "size' (snd (resize h b n)) = n"
      "refs (fst (resize h b n)) (buf (snd (resize h b n))) = 1"
      "alloc_valid (fst (resize h b n)) (snd (resize h b n))"
      "refs (fst (resize h b n)) (buf b) = refs h (buf b) - 1"
      using ne False neq by (simp_all add: resize_copy alloc_valid_def)
    show ?thesis using ne frame pre rest neq by simp
  qed
qed

theorem resize_preserves_prefix_witness:
  "alloc_valid heap_abc \<lparr>buf = 1, size' = 3\<rparr> \<and> (2::size_t) \<noteq> 3 \<and>
   buf (snd (resize heap_abc \<lparr>buf = 1, size' = 3\<rparr> 2)) = 5 \<and>
   refs (fst (resize heap_abc \<lparr>buf = 1, size' = 3\<rparr> 2)) 1 = 1 \<and>
   slice_bytes (hmem (fst (resize heap_abc \<lparr>buf = 1, size' = 3\<rparr> 2)))
     (snd (resize heap_abc \<lparr>buf = 1, size' = 3\<rparr> 2)) = [0x61, 0x62]"
proof -
  have v: "alloc_valid heap_abc \<lparr>buf = 1, size' = 3\<rparr>"
    by (simp add: alloc_valid_def heap_abc_def)
  have sb: "slice_bytes (hmem heap_abc) \<lparr>buf = 1, size' = 3\<rparr> = [0x61, 0x62, 0x63]"
    by (simp add: slice_bytes_def load_def heap_abc_def mem_abc_def upt_rec)
  have m: "unat (min (3::size_t) 2) = 2" by simp
  have l: "length (slice_bytes (hmem (fst (resize heap_abc \<lparr>buf = 1, size' = 3\<rparr> 2)))
     (snd (resize heap_abc \<lparr>buf = 1, size' = 3\<rparr> 2))) = 2"
    using resize_preserves_prefix [OF v, of 2] by (simp add: length_slice_bytes)
  show ?thesis
    using v resize_preserves_prefix [OF v, of 2] sb m l
    by (simp add: heap_abc_def)
qed



section \<open>Counting and setting in the mutable dictionary\<close>

lemma isEmpty_iff: "isEmpty v \<longleftrightarrow> v = MVEmpty"
  by (cases v) simp_all

lemma map_of_map_assign:
  "map_of (map_assign m k v) k' =
     (if k' = k then (case map_of m k of None \<Rightarrow> None | Some _ \<Rightarrow> Some v) else map_of m k')"
  by (induction m) (auto simp: map_assign_def)

lemma map_of_map_emplace:
  "map_of m k = None \<Longrightarrow> map_of (map_emplace m k v) k' = (if k' = k then Some v else map_of m k')"
  by (simp add: map_emplace_def map_of_append map_add_def split: option.splits)

lemma mutate_fields [simp]:
  "m_mutated (mutate d) = True"
  "m_sharedKeys (mutate d) = m_sharedKeys d"
  "m_dict (mutate d) = m_dict d"
  "m_count (mutate d) = m_count d"
  "m_map (mutate d) = m_map d"
  "m_newKeys (mutate d) = m_newKeys d"
  by (simp_all add: mutate_def)

lemma effective_set: "effective (MDict_set d k v) k' = (if k' = k then v else effective d k')"
  by (auto simp: MDict_set_def effective_def map_find_def MDict_setInMap_def Let_def isEmpty_iff
      map_of_map_assign map_of_map_emplace split: option.splits)

lemma count_set:
  "m_count (MDict_set d k v) =
     m_count d + word_of_int (of_bool (\<not> isEmpty v) - of_bool (\<not> isEmpty (effective d k)))"
  by (auto simp: MDict_set_def effective_def map_find_def MDict_setInMap_def Let_def
      split: option.splits)

lemma set_noop:
  "isEmpty v \<Longrightarrow> isEmpty (effective d k) \<Longrightarrow> MDict_set d k v = d"
  by (auto simp: MDict_set_def effective_def map_find_def split: option.splits)

lemma set_writes:
  "\<not> (isEmpty v \<and> isEmpty (effective d k)) \<Longrightarrow>
   m_mutated (MDict_set d k v) \<and> map_find (m_map (MDict_set d k v)) k = Some v"
  by (auto simp: MDict_set_def effective_def map_find_def MDict_setInMap_def Let_def
      map_of_map_assign map_of_map_emplace split: option.splits)

lemma effective_empty_iff:
  "isEmpty (effective d k) \<longleftrightarrow>
     (\<exists>old. map_find (m_map d) k = Some old \<and> isEmpty old) \<or>
     (map_find (m_map d) k = None \<and> Dict_get (m_dict d) k (m_sharedKeys d) = None)"
  by (auto simp: effective_def map_find_def split: option.splits)

text \<open>
  Claim C3. \<open>set(key, val)\<close> changes \<open>count()\<close> by \<open>!val.isEmpty() - !oldValue.isEmpty()\<close>
  (in \<open>uint32_t\<close> arithmetic), where \<open>oldValue\<close> is the effective value of the key: its map
  entry, else its entry in the immutable dictionary, else empty. The old value is empty
  exactly when the map holds an empty entry for the key or the key is absent everywhere.
  When the new and the old value are both empty, \<open>set\<close> leaves the dictionary as it was: no
  flag, no map write. In every other case, also when a non-empty value replaces a non-empty
  one, it marks the collection mutated and the map holds the new value under the key.
\<close>

theorem set_count_and_mutation:
  "MDict_count (MDict_set d key val) =
     MDict_count d + word_of_int (of_bool (\<not> isEmpty val) - of_bool (\<not> isEmpty (effective d key))) \<and>
   (isEmpty (effective d key) \<longleftrightarrow>
      (\<exists>old. map_find (m_map d) key = Some old \<and> isEmpty old) \<or>
      (map_find (m_map d) key = None \<and> Dict_get (m_dict d) key (m_sharedKeys d) = None)) \<and>
   (isEmpty val \<and> isEmpty (effective d key) \<longrightarrow> MDict_set d key val = d) \<and>
   (\<not> (isEmpty val \<and> isEmpty (effective d key)) \<longrightarrow>
      m_mutated (MDict_set d key val) \<and> map_find (m_map (MDict_set d key val)) key = Some val)"
  using count_set[of d key val] effective_empty_iff[of d key] set_noop[of val d key]
    set_writes[of val d key]
  unfolding MDict_count_def by blast

theorem set_count_and_mutation_witness:
  "\<not> (isEmpty (MVEmpty :: (nat, nat) MValue) \<and> isEmpty (effective (MDict_init blank dict_ab []) [0x61])) \<and>
   MDict_count (MDict_init blank dict_ab []) = 2 \<and>
   MDict_count (MDict_set (MDict_init blank dict_ab []) [0x61] MVEmpty) = 1 \<and>
   m_mutated (MDict_set (MDict_init blank dict_ab []) [0x61] MVEmpty) \<and>
   isEmpty (effective (MDict_init blank dict_ab []) [0x63]) \<and>
   MDict_set (MDict_init blank dict_ab []) [0x63] MVEmpty = MDict_init blank dict_ab []"
proof -
  have e: "effective (MDict_init blank dict_ab []) [0x61] = MVEncoded 1"
          "effective (MDict_init blank dict_ab []) [0x63] = MVEmpty"
    by (simp_all add: effective_def MDict_init_def MCollection_init_def blank_def dict_ab_def)
  have c: "MDict_count (MDict_init blank dict_ab []) = 2"
    by (simp add: MDict_count_def MDict_init_def Dict_count_def dict_ab_def)
  show ?thesis
    using e c set_count_and_mutation [of "MDict_init blank dict_ab []" "[0x61]" MVEmpty]
      set_count_and_mutation [of "MDict_init blank dict_ab []" "[0x63]" MVEmpty]
    by simp
qed

text \<open>
  Claim C4. \<open>contains\<close> passes the shared keys to \<open>_dict->get\<close> and \<open>get\<close> does not (line 52,
  marked \<open>//FIX\<close>). For a key that the encoded dictionary stores as a shared-key tag and
  that has no map entry, \<open>contains\<close> answers true and \<open>get\<close> returns the null pointer.
\<close>

theorem contains_get_disagree:
  "map_find (m_map (MDict_init blank dict_shared [])) [0x61] = None \<and>
   MDict_contains (MDict_init blank dict_shared []) [0x61] \<and>
   snd (MDict_get (MDict_init blank dict_shared []) [0x61]) = None"
  by (simp add: MDict_init_def MCollection_init_def blank_def dict_shared_def map_find_def
      MDict_contains_def MDict_get_def)

text \<open>Without shared keys the two lookups are the same and the two methods agree.\<close>

lemma contains_get_agree_without_shared_keys:
  "m_sharedKeys d = None \<Longrightarrow> map_find (m_map d) key = None \<Longrightarrow>
   MDict_contains d key \<longleftrightarrow> snd (MDict_get d key) \<noteq> None"
  by (auto simp: MDict_contains_def MDict_get_def MDict_setInMap_def map_emplace_def
      map_find_def Let_def map_add_def split: option.splits)


lemma Dict_get_iff:
  "Dict_get d k sk \<noteq> None \<longleftrightarrow> Some k \<in> set (map (\<lambda>e. resolve_key sk (fst e)) d)"
  by (induction d) auto

lemma finite_Some_preimage: "finite S \<Longrightarrow> finite {k. Some k \<in> S}"
proof -
  assume "finite S"
  moreover have "{k. Some k \<in> S} \<subseteq> the ` S" by force
  ultimately show ?thesis by (meson finite_imageI finite_subset)
qed

lemma finite_live: "finite (live d)"
proof -
  have "live d \<subseteq> fst ` set (m_map d) \<union>
          {k. Some k \<in> set (map (\<lambda>e. resolve_key (m_sharedKeys d) (fst e)) (m_dict d))}"
  proof
    fix k assume "k \<in> live d"
    then have ne: "\<not> isEmpty (effective d k)" by (simp add: live_def)
    show "k \<in> fst ` set (m_map d) \<union>
          {k. Some k \<in> set (map (\<lambda>e. resolve_key (m_sharedKeys d) (fst e)) (m_dict d))}"
    proof (cases "map_of (m_map d) k")
      case None
      with ne have "Dict_get (m_dict d) k (m_sharedKeys d) \<noteq> None"
        by (auto simp: effective_def split: option.splits)
      then have "Some k \<in> set (map (\<lambda>e. resolve_key (m_sharedKeys d) (fst e)) (m_dict d))"
        by (simp only: Dict_get_iff)
      then show ?thesis by simp
    next
      case (Some v)
      then have "k \<in> fst ` set (m_map d)" by (metis map_of_SomeD fst_conv image_eqI)
      then show ?thesis by simp
    qed
  qed
  moreover have "finite (fst ` set (m_map d) \<union>
          {k. Some k \<in> set (map (\<lambda>e. resolve_key (m_sharedKeys d) (fst e)) (m_dict d))})"
    by (simp add: finite_Some_preimage)
  ultimately show ?thesis by (rule finite_subset)
qed

lemma live_set:
  "live (MDict_set d k v) = (if isEmpty v then live d - {k} else insert k (live d))"
  by (auto simp: live_def effective_set)

lemma inv_set:
  assumes "m_count d = word_of_nat (card (live d))"
  shows "m_count (MDict_set d k v) = word_of_nat (card (live (MDict_set d k v)))"
proof -
  have fin: "finite (live d)" by (rule finite_live)
  have mem: "k \<in> live d \<longleftrightarrow> \<not> isEmpty (effective d k)" by (simp add: live_def)
  show ?thesis
  proof (cases "isEmpty v")
    case True
    show ?thesis
    proof (cases "k \<in> live d")
      case True
      then have "card (live d) = Suc (card (live d - {k}))"
        using fin card_Suc_Diff1[of "live d" k] by (simp del: card_Diff_insert)
      then have "(word_of_nat (card (live d - {k})) :: 32 word) = word_of_nat (card (live d)) - 1"
        by simp
      then show ?thesis using \<open>isEmpty v\<close> True mem assms
        by (simp add: count_set live_set)
    next
      case False
      then show ?thesis using \<open>isEmpty v\<close> mem assms
        by (simp add: count_set live_set)
    qed
  next
    case False
    show ?thesis
    proof (cases "k \<in> live d")
      case True
      then have "insert k (live d) = live d" by auto
      then show ?thesis using \<open>\<not> isEmpty v\<close> True mem assms
        by (simp add: count_set live_set)
    next
      case nl: False
      then have "card (insert k (live d)) = Suc (card (live d))"
        using fin by simp
      then show ?thesis using \<open>\<not> isEmpty v\<close> nl mem assms
        by (simp add: count_set live_set)
    qed
  qed
qed

lemma inv_apply_ops:
  "m_count d = word_of_nat (card (live d)) \<Longrightarrow>
   m_count (apply_ops d ops) = word_of_nat (card (live (apply_ops d ops)))"
proof (induction ops arbitrary: d)
  case Nil
  then show ?case by (simp add: apply_ops_def)
next
  case (Cons x xs)
  have "m_count (apply_op d x) = word_of_nat (card (live (apply_op d x)))"
    using Cons.prems by (cases x) (simp_all add: inv_set MDict_remove_def)
  from Cons.IH[OF this] show ?case by (simp add: apply_ops_def)
qed

lemma live_init:
  "live (MDict_init d0 dict parent)
     = {k. Some k \<in> set (map (\<lambda>e. resolve_key (m_sharedKeys d0) (fst e)) dict)}"
proof -
  have "\<And>k. \<not> isEmpty (effective (MDict_init d0 dict parent) k)
          \<longleftrightarrow> Dict_get dict k (m_sharedKeys d0) \<noteq> None"
    by (auto simp: effective_def MDict_init_def MCollection_init_def split: option.splits)
  then have "live (MDict_init d0 dict parent) = {k. Dict_get dict k (m_sharedKeys d0) \<noteq> None}"
    by (simp only: live_def)
  then show ?thesis by (simp only: Dict_get_iff)
qed

lemma card_Some_preimage:
  assumes "None \<notin> set ks" "distinct ks"
  shows "card {k. Some k \<in> set ks} = length ks"
proof -
  have "Some ` {k. Some k \<in> set ks} = set ks"
    using assms(1) by (auto simp: image_iff) (metis not_Some_eq)
  then have "card (set ks) = card {k. Some k \<in> set ks}"
    by (metis card_image inj_Some)
  then show ?thesis using assms(2) by (simp add: distinct_card)
qed

lemma inv_init:
  assumes "wf_Dict (m_sharedKeys d0) dict"
  shows "m_count (MDict_init d0 dict parent) = word_of_nat (card (live (MDict_init d0 dict parent)))"
proof -
  let ?ks = "map (\<lambda>e. resolve_key (m_sharedKeys d0) (fst e)) dict"
  have "None \<notin> set ?ks" "distinct ?ks"
    using assms by (auto simp: wf_Dict_def list_all_iff)
  then have "card {k. Some k \<in> set ?ks} = length dict"
    using card_Some_preimage[of ?ks] by simp
  then show ?thesis
    by (simp add: live_init) (simp add: MDict_init_def Dict_count_def)
qed

text \<open>
  Claim C1. Start from \<open>init\<close> over a well-formed immutable dictionary and apply any sequence
  of \<open>set\<close> and \<open>remove\<close> calls: \<open>count()\<close> is the number of keys whose effective value is
  not empty. The counter is a \<open>uint32_t\<close>: it is that number as a 32-bit value, hence the
  number itself whenever it is below \<open>2^32\<close>.
\<close>

theorem count_is_number_of_live_keys:
  assumes "wf_Dict (m_sharedKeys d0) dict"
  shows "MDict_count (apply_ops (MDict_init d0 dict parent) ops)
           = word_of_nat (card {k. \<not> isEmpty (effective (apply_ops (MDict_init d0 dict parent) ops) k)}) \<and>
         (card {k. \<not> isEmpty (effective (apply_ops (MDict_init d0 dict parent) ops) k)} < 2 ^ 32 \<longrightarrow>
          unat (MDict_count (apply_ops (MDict_init d0 dict parent) ops))
           = card {k. \<not> isEmpty (effective (apply_ops (MDict_init d0 dict parent) ops) k)})"
proof -
  let ?d = "apply_ops (MDict_init d0 dict parent) ops"
  have c: "MDict_count ?d = word_of_nat (card (live ?d))"
    unfolding MDict_count_def by (rule inv_apply_ops) (rule inv_init [OF assms])
  moreover have "card (live ?d) < 2 ^ 32 \<longrightarrow> unat (MDict_count ?d) = card (live ?d)"
    unfolding c by (simp add: unat_of_nat)
  ultimately show ?thesis unfolding live_def by simp
qed


theorem count_is_number_of_live_keys_witness:
  "wf_Dict (m_sharedKeys blank) dict_ab \<and>
   card {k. \<not> isEmpty (effective (apply_ops (MDict_init blank dict_ab [])
                                     [Remove [0x61], Set [0x63] (MVNative 5)]) k)} = 2 \<and>
   MDict_count (apply_ops (MDict_init blank dict_ab []) [Remove [0x61], Set [0x63] (MVNative 5)]) = 2"
proof -
  let ?d = "apply_ops (MDict_init blank dict_ab []) [Remove [0x61], Set [0x63] (MVNative 5)]"
  have wf: "wf_Dict (m_sharedKeys blank) dict_ab"
    by (simp add: wf_Dict_def blank_def dict_ab_def)
  have e: "\<And>k. effective ?d k =
             (if k = [0x61] then MVEmpty else if k = [0x63] then MVNative 5
              else if k = [0x62] then MVEncoded 2 else MVEmpty)"
    by (simp add: apply_ops_def MDict_remove_def effective_set)
       (simp add: effective_def MDict_init_def MCollection_init_def blank_def dict_ab_def)
  have "{k. \<not> isEmpty (effective ?d k)} = {[0x62], [0x63]}"
    unfolding e by auto
  then have c: "card {k. \<not> isEmpty (effective ?d k)} = 2" by simp
  show ?thesis
    using wf c count_is_number_of_live_keys [OF wf, of "[]" "[Remove [0x61], Set [0x63] (MVNative 5)]"]
    by simp
qed



section \<open>Enumerating the mutable dictionary\<close>

lemma fold_collect:
  "fold (\<lambda>x tr. if P x then tr @ [f x] else tr) xs tr0 = tr0 @ map f (filter P xs)"
  by (induction xs arbitrary: tr0) simp_all

lemma enumerate_calls_eq:
  "enumerate_calls d =
     filter (\<lambda>e. \<not> isEmpty (snd e)) (m_map d) @
     map (\<lambda>i. (fst i, MVEncoded (snd i)))
       (filter (\<lambda>i. map_find (m_map d) (fst i) = None) (Dict_iterator (m_dict d) (m_sharedKeys d)))"
proof -
  have 1: "fold (\<lambda>item tr. if \<not> isEmpty (snd item) then tr @ [(fst item, snd item)] else tr) (m_map d) []
             = filter (\<lambda>e. \<not> isEmpty (snd e)) (m_map d)"
    using fold_collect[of "\<lambda>e. \<not> isEmpty (snd e)" "\<lambda>e. (fst e, snd e)" "m_map d" "[]"] by simp
  show ?thesis
    unfolding enumerate_calls_def MDict_enumerate_def Let_def 1
    by (rule fold_collect)
qed

lemma fold_callback:
  "fold (\<lambda>x s. if P x then cb (g x) (h x) s else s) xs s0
     = fold (\<lambda>e. cb (fst e) (snd e)) (map (\<lambda>x. (g x, h x)) (filter P xs)) s0"
  by (induction xs arbitrary: s0) simp_all

lemma enumerate_via_calls:
  "MDict_enumerate d callback s0 = fold (\<lambda>e. callback (fst e) (snd e)) (enumerate_calls d) s0"
proof -
  have 1: "\<And>s. fold (\<lambda>item s. if \<not> isEmpty (snd item) then callback (fst item) (snd item) s else s) (m_map d) s
             = fold (\<lambda>e. callback (fst e) (snd e)) (filter (\<lambda>e. \<not> isEmpty (snd e)) (m_map d)) s"
    using fold_callback[of "\<lambda>e. \<not> isEmpty (snd e)" callback fst snd "m_map d"] by simp
  have 2: "\<And>s. fold (\<lambda>i s. if map_find (m_map d) (fst i) = None
                       then callback (fst i) (MVEncoded (snd i)) s else s)
                (Dict_iterator (m_dict d) (m_sharedKeys d)) s
             = fold (\<lambda>e. callback (fst e) (snd e))
                 (map (\<lambda>i. (fst i, MVEncoded (snd i)))
                    (filter (\<lambda>i. map_find (m_map d) (fst i) = None)
                       (Dict_iterator (m_dict d) (m_sharedKeys d)))) s"
    by (rule fold_callback[of "\<lambda>i. map_find (m_map d) (fst i) = None" callback
        fst "\<lambda>i. MVEncoded (snd i)" "Dict_iterator (m_dict d) (m_sharedKeys d)"])
  show ?thesis
    unfolding enumerate_calls_eq fold_append comp_def
    unfolding MDict_enumerate_def Let_def 1 2 ..
qed

lemma wf_resolve:
  "wf_Dict sk d \<Longrightarrow> e \<in> set d \<Longrightarrow> resolve_key sk (fst e) = Some (keyString sk (fst e))"
  by (auto simp: wf_Dict_def list_all_iff keyString_def)

lemma Dict_get_map_of:
  "list_all (\<lambda>e. resolve_key sk (fst e) \<noteq> None) d \<Longrightarrow>
   Dict_get d k sk = map_of (Dict_iterator d sk) k"
  by (induction d) (auto simp: Dict_iterator_def keyString_def)

lemma wf_Dict_get: "wf_Dict sk d \<Longrightarrow> Dict_get d k sk = map_of (Dict_iterator d sk) k"
  by (simp add: wf_Dict_def Dict_get_map_of)

lemma distinct_map_Some: "distinct (map Some ys) \<Longrightarrow> distinct ys"
  by (simp add: distinct_map)

lemma wf_distinct_iterator: "wf_Dict sk d \<Longrightarrow> distinct (map fst (Dict_iterator d sk))"
proof -
  assume wf: "wf_Dict sk d"
  have "map (\<lambda>e. resolve_key sk (fst e)) d = map Some (map fst (Dict_iterator d sk))"
    using wf_resolve[OF wf] by (simp add: Dict_iterator_def comp_def)
  moreover have "distinct (map (\<lambda>e. resolve_key sk (fst e)) d)" using wf by (simp add: wf_Dict_def)
  ultimately show ?thesis by (metis distinct_map_Some)
qed


lemma map_of_distinct_mem:
  "distinct (map fst xs) \<Longrightarrow> (k, v) \<in> set xs \<Longrightarrow> map_of xs k = Some v"
  by simp

lemma calls_sound:
  assumes dm: "distinct (map fst (m_map d))" and wf: "wf_Dict (m_sharedKeys d) (m_dict d)"
    and e: "e \<in> set (enumerate_calls d)"
  shows "\<not> isEmpty (snd e) \<and> effective d (fst e) = snd e"
proof -
  let ?it = "Dict_iterator (m_dict d) (m_sharedKeys d)"
  from e consider
    (map) "e \<in> set (m_map d)" "\<not> isEmpty (snd e)"
    | (dict) i where "i \<in> set ?it" "map_find (m_map d) (fst i) = None" "e = (fst i, MVEncoded (snd i))"
    unfolding enumerate_calls_eq by auto
  then show ?thesis
  proof cases
    case map
    then have "map_of (m_map d) (fst e) = Some (snd e)"
      using dm by (simp add: map_of_distinct_mem)
    then show ?thesis using map by (simp add: effective_def)
  next
    case dict
    have "map_of ?it (fst i) = Some (snd i)"
      using wf_distinct_iterator[OF wf] dict(1) by (simp add: map_of_distinct_mem)
    then have "Dict_get (m_dict d) (fst i) (m_sharedKeys d) = Some (snd i)"
      by (simp add: wf_Dict_get[OF wf])
    then show ?thesis using dict by (simp add: effective_def map_find_def)
  qed
qed

lemma calls_complete:
  assumes wf: "wf_Dict (m_sharedKeys d) (m_dict d)" and ne: "\<not> isEmpty (effective d k)"
  shows "(k, effective d k) \<in> set (enumerate_calls d)"
proof (cases "map_of (m_map d) k")
  case None
  with ne obtain v where g: "Dict_get (m_dict d) k (m_sharedKeys d) = Some v"
    by (auto simp: effective_def split: option.splits)
  then have "(k, v) \<in> set (Dict_iterator (m_dict d) (m_sharedKeys d))"
    by (simp add: wf_Dict_get[OF wf] map_of_SomeD)
  moreover have "effective d k = MVEncoded v" using None g by (simp add: effective_def)
  ultimately have "(k, effective d k) \<in> set (map (\<lambda>i. (fst i, MVEncoded (snd i)))
         (filter (\<lambda>i. map_find (m_map d) (fst i) = None)
            (Dict_iterator (m_dict d) (m_sharedKeys d))))"
    using None by (simp add: map_find_def image_iff)
  then show ?thesis
    unfolding enumerate_calls_eq by simp
next
  case (Some v)
  then have "(k, v) \<in> set (m_map d)" by (rule map_of_SomeD)
  moreover have "effective d k = v" using Some by (simp add: effective_def)
  ultimately have "(k, effective d k) \<in> set (filter (\<lambda>e. \<not> isEmpty (snd e)) (m_map d))"
    using ne by simp
  then show ?thesis
    unfolding enumerate_calls_eq by simp
qed

lemma calls_distinct:
  assumes dm: "distinct (map fst (m_map d))" and wf: "wf_Dict (m_sharedKeys d) (m_dict d)"
  shows "distinct (map fst (enumerate_calls d))"
proof -
  let ?it = "Dict_iterator (m_dict d) (m_sharedKeys d)"
  let ?M = "filter (\<lambda>e. \<not> isEmpty (snd e)) (m_map d)"
  let ?D = "filter (\<lambda>i. map_find (m_map d) (fst i) = None) ?it"
  have 1: "distinct (map fst ?M)" using dm by (rule distinct_map_filter)
  have 2: "distinct (map fst ?D)" using wf_distinct_iterator[OF wf] by (rule distinct_map_filter)
  have 3: "fst ` set ?M \<inter> fst ` set ?D = {}"
  proof -
    have a: "fst ` set ?M \<subseteq> fst ` set (m_map d)" by auto
    have b: "fst ` set ?D \<subseteq> {k. k \<notin> fst ` set (m_map d)}"
      by (auto simp: map_find_def map_of_eq_None_iff)
    show ?thesis using a b by blast
  qed
  have "map fst (enumerate_calls d) = map fst ?M @ map fst ?D"
    unfolding enumerate_calls_eq by (simp add: comp_def)
  then show ?thesis using 1 2 3 by simp
qed

text \<open>
  Claim C8. The calls \<open>enumerate\<close> makes are, first, the non-empty entries of \<open>_map\<close> (in
  the order of the map's own iteration) and then, in the native order of the encoded
  dictionary, its entries whose key has no \<open>_map\<close> entry; a callback of any kind sees exactly
  these calls in this order. For a well-formed dictionary no key is passed twice, a key with
  a tombstone is never passed, every value passed is the non-empty effective value of its
  key, and every key with a non-empty effective value is passed.
\<close>

theorem enumerate_map_first_then_dict:
  assumes "distinct (map fst (m_map d))" and "wf_Dict (m_sharedKeys d) (m_dict d)"
  shows
    "enumerate_calls d =
       filter (\<lambda>e. \<not> isEmpty (snd e)) (m_map d) @
       map (\<lambda>i. (fst i, MVEncoded (snd i)))
         (filter (\<lambda>i. map_find (m_map d) (fst i) = None)
            (Dict_iterator (m_dict d) (m_sharedKeys d))) \<and>
     (\<forall>callback s0. MDict_enumerate d callback s0
        = fold (\<lambda>e. callback (fst e) (snd e)) (enumerate_calls d) s0) \<and>
     distinct (map fst (enumerate_calls d)) \<and>
     (\<forall>e \<in> set (enumerate_calls d). \<not> isEmpty (snd e) \<and> effective d (fst e) = snd e) \<and>
     (\<forall>k. map_find (m_map d) k = Some MVEmpty \<longrightarrow> k \<notin> fst ` set (enumerate_calls d)) \<and>
     (\<forall>k. \<not> isEmpty (effective d k) \<longrightarrow> (k, effective d k) \<in> set (enumerate_calls d))"
proof -
  have tomb: "\<forall>k. map_find (m_map d) k = Some MVEmpty \<longrightarrow> k \<notin> fst ` set (enumerate_calls d)"
  proof (intro allI impI notI)
    fix k assume t: "map_find (m_map d) k = Some MVEmpty" and "k \<in> fst ` set (enumerate_calls d)"
    then obtain e where e: "e \<in> set (enumerate_calls d)" "fst e = k" by auto
    from calls_sound[OF assms e(1)] have "\<not> isEmpty (effective d k)" using e(2) by simp
    then show False using t by (simp add: effective_def map_find_def)
  qed
  show ?thesis
  proof (intro conjI)
    show "enumerate_calls d =
       filter (\<lambda>e. \<not> isEmpty (snd e)) (m_map d) @
       map (\<lambda>i. (fst i, MVEncoded (snd i)))
         (filter (\<lambda>i. map_find (m_map d) (fst i) = None)
            (Dict_iterator (m_dict d) (m_sharedKeys d)))"
      by (rule enumerate_calls_eq)
    show "\<forall>callback s0. MDict_enumerate d callback s0
        = fold (\<lambda>e. callback (fst e) (snd e)) (enumerate_calls d) s0"
      by (intro allI) (rule enumerate_via_calls)
    show "distinct (map fst (enumerate_calls d))" by (rule calls_distinct[OF assms])
    show "\<forall>e \<in> set (enumerate_calls d). \<not> isEmpty (snd e) \<and> effective d (fst e) = snd e"
      using calls_sound[OF assms] by blast
    show "\<forall>k. map_find (m_map d) k = Some MVEmpty \<longrightarrow> k \<notin> fst ` set (enumerate_calls d)"
      by (rule tomb)
    show "\<forall>k. \<not> isEmpty (effective d k) \<longrightarrow> (k, effective d k) \<in> set (enumerate_calls d)"
      using calls_complete[OF assms(2)] by blast
  qed
qed


lemma edited_eq:
  "edited = \<lparr>m_mutated = True, m_sharedKeys = Some [[0x61]], m_ancestors = [],
              m_dict = dict_ab, m_count = 1 + 1,
              m_map = [([0x61], MVEmpty), ([0x63], MVNative 5)],
              m_newKeys = [[0x61], [0x63]]\<rparr>"
  by (simp add: edited_def apply_ops_def MDict_remove_def MDict_set_def MDict_init_def
      MCollection_init_def blank_def dict_ab_def map_find_def Dict_count_def MDict_setInMap_def
      map_emplace_def mutate_def)

theorem enumerate_map_first_then_dict_witness:
  "distinct (map fst (m_map edited)) \<and> wf_Dict (m_sharedKeys edited) (m_dict edited) \<and>
   enumerate_calls edited = [([0x63], MVNative 5), ([0x62], MVEncoded 2)]"
proof -
  have dm: "distinct (map fst (m_map edited))" by (simp add: edited_eq)
  have wf: "wf_Dict (m_sharedKeys edited) (m_dict edited)"
    by (simp add: edited_eq wf_Dict_def dict_ab_def)
  have "enumerate_calls edited = [([0x63], MVNative 5), ([0x62], MVEncoded 2)]"
    by (rule trans [OF conjunct1 [OF enumerate_map_first_then_dict [OF dm wf]]])
       (simp add: edited_eq dict_ab_def Dict_iterator_def keyString_def map_find_def)
  then show ?thesis using dm wf by simp
qed



section \<open>Reading from the mutable dictionary\<close>

lemma Dict_get_plain_mem: "Dict_get d k None = Some v \<Longrightarrow> (KString k, v) \<in> set d"
proof (induction d)
  case Nil
  then show ?case by simp
next
  case (Cons e es)
  obtain ek v' where e: "e = (ek, v')" by (cases e)
  show ?case
  proof (cases "resolve_key None ek = Some k")
    case True
    then have "ek = KString k" by (cases ek) simp_all
    then show ?thesis using Cons.prems e True by simp
  next
    case False
    then show ?thesis using Cons e by simp
  qed
qed

lemma Dict_get_plain_shared:
  assumes wf: "wf_Dict sk d" and g: "Dict_get d k None = Some v"
  shows "Dict_get d k sk = Some v" "(k, v) \<in> set (Dict_iterator d sk)"
proof -
  have "(KString k, v) \<in> set d" using g by (rule Dict_get_plain_mem)
  then have "(keyString sk (fst (KString k, v)), snd (KString k, v)) \<in> set (Dict_iterator d sk)"
    unfolding Dict_iterator_def by (metis (no_types, lifting) image_eqI list.set_map)
  then show m: "(k, v) \<in> set (Dict_iterator d sk)" by (simp add: keyString_def)
  then have "map_of (Dict_iterator d sk) k = Some v"
    using wf_distinct_iterator[OF wf] by (simp add: map_of_distinct_mem)
  then show "Dict_get d k sk = Some v" by (simp add: wf_Dict_get[OF wf])
qed

lemma get_hit: "map_find (m_map d) key = Some v \<Longrightarrow> MDict_get d key = (d, Some v)"
  by (simp add: MDict_get_def)

lemma get_absent:
  "map_find (m_map d) key = None \<Longrightarrow> Dict_get (m_dict d) key None = None \<Longrightarrow>
   MDict_get d key = (d, None)"
  by (simp add: MDict_get_def)

lemma get_materialize:
  "map_find (m_map d) key = None \<Longrightarrow> Dict_get (m_dict d) key None = Some v \<Longrightarrow>
   MDict_get d key =
     (d\<lparr>m_map := m_map d @ [(key, MVEncoded v)], m_newKeys := m_newKeys d @ [key]\<rparr>,
      Some (MVEncoded v))"
  by (simp add: MDict_get_def MDict_setInMap_def map_emplace_def map_find_def Let_def map_add_def)

lemma mset_split_key:
  "distinct (map fst xs) \<Longrightarrow> (k, v) \<in> set xs \<Longrightarrow> P (k, v) \<Longrightarrow>
   mset (filter P xs) = add_mset (k, v) (mset (filter (\<lambda>i. P i \<and> fst i \<noteq> k) xs))"
proof (induction xs)
  case Nil
  then show ?case by simp
next
  case (Cons x xs)
  show ?case
  proof (cases "x = (k, v)")
    case True
    then have "k \<notin> fst ` set xs" using Cons.prems(1) by simp
    then have "filter (\<lambda>i. P i \<and> fst i \<noteq> k) xs = filter P xs"
      by (intro filter_cong) auto
    then show ?thesis using True Cons.prems(3) by simp
  next
    case False
    then have m: "(k, v) \<in> set xs" using Cons.prems(2) by simp
    then have "k \<in> fst ` set xs" by force
    then have "fst x \<noteq> k" using Cons.prems(1) by auto
    then show ?thesis using Cons.IH m Cons.prems by simp
  qed
qed

lemma effective_get:
  assumes wf: "wf_Dict (m_sharedKeys d) (m_dict d)"
  shows "effective (fst (MDict_get d key)) k = effective d k"
proof (cases "map_find (m_map d) key")
  case (Some v)
  then show ?thesis by (simp add: get_hit)
next
  case None
  show ?thesis
  proof (cases "Dict_get (m_dict d) key None")
    case n: None
    then show ?thesis using None by (simp add: get_absent)
  next
    case (Some v)
    have "Dict_get (m_dict d) key (m_sharedKeys d) = Some v"
      using Dict_get_plain_shared(1)[OF wf Some] .
    then show ?thesis using None Some
      by (simp add: get_materialize effective_def map_find_def map_add_def split: option.splits)
  qed
qed

lemma contains_effective: "MDict_contains d k \<longleftrightarrow> \<not> isEmpty (effective d k)"
  by (auto simp: MDict_contains_def effective_def map_find_def split: option.splits)

lemma calls_get_materialize:
  assumes "map_find (m_map d) key = None" and "Dict_get (m_dict d) key None = Some v"
  shows "enumerate_calls (fst (MDict_get d key)) =
           filter (\<lambda>e. \<not> isEmpty (snd e)) (m_map d) @ [(key, MVEncoded v)] @
           map (\<lambda>i. (fst i, MVEncoded (snd i)))
             (filter (\<lambda>i. map_find (m_map d) (fst i) = None \<and> fst i \<noteq> key)
                (Dict_iterator (m_dict d) (m_sharedKeys d)))"
proof -
  have P': "\<And>i. map_find (m_map d @ [(key, MVEncoded v)]) (fst i) = None
               \<longleftrightarrow> map_find (m_map d) (fst i) = None \<and> fst i \<noteq> key"
    by (auto simp: map_find_def map_add_def split: option.splits)
  show ?thesis
    using assms by (simp add: get_materialize enumerate_calls_eq P')
qed

lemma calls_get:
  assumes wf: "wf_Dict (m_sharedKeys d) (m_dict d)"
  shows "mset (enumerate_calls (fst (MDict_get d key))) = mset (enumerate_calls d)"
proof (cases "map_find (m_map d) key")
  case (Some v)
  then show ?thesis by (simp add: get_hit)
next
  case None
  show ?thesis
  proof (cases "Dict_get (m_dict d) key None")
    case n: None
    then show ?thesis using None by (simp add: get_absent)
  next
    case (Some v)
    let ?it = "Dict_iterator (m_dict d) (m_sharedKeys d)"
    let ?P = "\<lambda>i. map_find (m_map d) (fst i) = None"
    let ?f = "\<lambda>i. (fst i, MVEncoded (snd i))"
    have mem: "(key, v) \<in> set ?it" using Dict_get_plain_shared(2)[OF wf Some] .
    have split: "mset (filter ?P ?it) = add_mset (key, v) (mset (filter (\<lambda>i. ?P i \<and> fst i \<noteq> key) ?it))"
      using mset_split_key[OF wf_distinct_iterator[OF wf] mem, of ?P] None by simp
    have A: "mset (map ?f (filter ?P ?it))
            = add_mset (key, MVEncoded v) (mset (map ?f (filter (\<lambda>i. ?P i \<and> fst i \<noteq> key) ?it)))"
      unfolding mset_map split by simp
    have B: "enumerate_calls (fst (MDict_get d key)) =
               filter (\<lambda>e. \<not> isEmpty (snd e)) (m_map d) @ [(key, MVEncoded v)] @
               map ?f (filter (\<lambda>i. ?P i \<and> fst i \<noteq> key) ?it)"
      using None Some by (rule calls_get_materialize)
    have C: "enumerate_calls d = filter (\<lambda>e. \<not> isEmpty (snd e)) (m_map d) @ map ?f (filter ?P ?it)"
      by (rule enumerate_calls_eq)
    show ?thesis
      unfolding B C mset_append A by simp
  qed
qed

lemma get_absent_everywhere:
  assumes wf: "wf_Dict (m_sharedKeys d) (m_dict d)"
    and "map_find (m_map d) key = None"
    and "Dict_get (m_dict d) key (m_sharedKeys d) = None"
  shows "MDict_get d key = (d, None)"
proof (cases "Dict_get (m_dict d) key None")
  case None
  then show ?thesis using assms(2) by (rule get_absent [rotated])
next
  case (Some v)
  from Dict_get_plain_shared(1)[OF wf Some] assms(3) show ?thesis by simp
qed

text \<open>
  Claim C10, amended. Over a well-formed encoded dictionary \<open>get(key)\<close> changes neither
  \<open>count()\<close> nor the mutated flags, nor the answer of \<open>contains\<close> or the effective value of
  any key, and a later \<open>enumerate\<close> passes the same keys with the same values, each as often
  as before. A key that already has a map entry, and a key that is absent everywhere, leave
  the dictionary as it was. A key that has no map entry and that the encoded dictionary
  holds under a string key is materialized: the map receives an entry for the key that refers
  to the encoded value, the key is appended to \<open>_newKeys\<close>, the entry is what is returned, and
  from then on \<open>enumerate\<close> passes this key after the other map entries and before the entries
  it still reads from the encoded dictionary, so the order of its calls can change.
\<close>

theorem get_read_only_up_to_order:
  assumes "wf_Dict (m_sharedKeys d) (m_dict d)"
  shows
    "MDict_count (fst (MDict_get d key)) = MDict_count d \<and>
     m_mutated (fst (MDict_get d key)) = m_mutated d \<and>
     m_ancestors (fst (MDict_get d key)) = m_ancestors d \<and>
     (\<forall>k. MDict_contains (fst (MDict_get d key)) k = MDict_contains d k) \<and>
     (\<forall>k. effective (fst (MDict_get d key)) k = effective d k) \<and>
     mset (enumerate_calls (fst (MDict_get d key))) = mset (enumerate_calls d) \<and>
     (\<forall>old. map_find (m_map d) key = Some old \<longrightarrow> MDict_get d key = (d, Some old)) \<and>
     (map_find (m_map d) key = None \<and> Dict_get (m_dict d) key (m_sharedKeys d) = None \<longrightarrow>
          MDict_get d key = (d, None)) \<and>
     (\<forall>v. map_find (m_map d) key = None \<and> Dict_get (m_dict d) key None = Some v \<longrightarrow>
          map_find (m_map (fst (MDict_get d key))) key = Some (MVEncoded v) \<and>
          m_newKeys (fst (MDict_get d key)) = m_newKeys d @ [key] \<and>
          snd (MDict_get d key) = Some (MVEncoded v) \<and>
          enumerate_calls (fst (MDict_get d key)) =
            filter (\<lambda>e. \<not> isEmpty (snd e)) (m_map d) @ [(key, MVEncoded v)] @
            map (\<lambda>i. (fst i, MVEncoded (snd i)))
              (filter (\<lambda>i. map_find (m_map d) (fst i) = None \<and> fst i \<noteq> key)
                 (Dict_iterator (m_dict d) (m_sharedKeys d))))"
proof -
  have fr: "MDict_count (fst (MDict_get d key)) = MDict_count d \<and>
            m_mutated (fst (MDict_get d key)) = m_mutated d \<and>
            m_ancestors (fst (MDict_get d key)) = m_ancestors d"
    by (simp add: MDict_get_def MDict_count_def MDict_setInMap_def Let_def split: option.splits)
  have obs: "(\<forall>k. MDict_contains (fst (MDict_get d key)) k = MDict_contains d k) \<and>
             (\<forall>k. effective (fst (MDict_get d key)) k = effective d k) \<and>
             mset (enumerate_calls (fst (MDict_get d key))) = mset (enumerate_calls d)"
    using effective_get[OF assms] calls_get[OF assms] by (simp add: contains_effective)
  have hit: "\<forall>old. map_find (m_map d) key = Some old \<longrightarrow> MDict_get d key = (d, Some old)"
    by (simp add: get_hit)
  have miss: "map_find (m_map d) key = None \<and> Dict_get (m_dict d) key (m_sharedKeys d) = None \<longrightarrow>
          MDict_get d key = (d, None)"
    using get_absent_everywhere[OF assms] by blast
  have mat: "\<forall>v. map_find (m_map d) key = None \<and> Dict_get (m_dict d) key None = Some v \<longrightarrow>
          map_find (m_map (fst (MDict_get d key))) key = Some (MVEncoded v) \<and>
          m_newKeys (fst (MDict_get d key)) = m_newKeys d @ [key] \<and>
          snd (MDict_get d key) = Some (MVEncoded v) \<and>
          enumerate_calls (fst (MDict_get d key)) =
            filter (\<lambda>e. \<not> isEmpty (snd e)) (m_map d) @ [(key, MVEncoded v)] @
            map (\<lambda>i. (fst i, MVEncoded (snd i)))
              (filter (\<lambda>i. map_find (m_map d) (fst i) = None \<and> fst i \<noteq> key)
                 (Dict_iterator (m_dict d) (m_sharedKeys d)))"
  proof (intro allI impI, elim conjE)
    fix v assume n: "map_find (m_map d) key = None" and g: "Dict_get (m_dict d) key None = Some v"
    have "map_find (m_map (fst (MDict_get d key))) key = Some (MVEncoded v) \<and>
          m_newKeys (fst (MDict_get d key)) = m_newKeys d @ [key] \<and>
          snd (MDict_get d key) = Some (MVEncoded v)"
      using n g by (simp add: get_materialize) (simp add: map_find_def map_add_def)
    then show "map_find (m_map (fst (MDict_get d key))) key = Some (MVEncoded v) \<and>
          m_newKeys (fst (MDict_get d key)) = m_newKeys d @ [key] \<and>
          snd (MDict_get d key) = Some (MVEncoded v) \<and>
          enumerate_calls (fst (MDict_get d key)) =
            filter (\<lambda>e. \<not> isEmpty (snd e)) (m_map d) @ [(key, MVEncoded v)] @
            map (\<lambda>i. (fst i, MVEncoded (snd i)))
              (filter (\<lambda>i. map_find (m_map d) (fst i) = None \<and> fst i \<noteq> key)
                 (Dict_iterator (m_dict d) (m_sharedKeys d)))"
      using calls_get_materialize[OF n g] by blast
  qed
  show ?thesis using fr obs hit miss mat by blast
qed

text \<open>
  Two limits of the read-only behaviour. Over \<open>dict_ab\<close>, \<open>get(b)\<close> changes the sequence
  of calls of a later \<open>enumerate\<close>: \<open>b\<close> is passed first instead of second. Over
  \<open>dict_shared\<close>, whose key \<open>a\<close> is stored as a shared-key tag, the key has no map entry and
  \<open>contains(a)\<close> is true, yet \<open>get(a)\<close> inserts nothing and returns the null pointer (line 52
  does not pass the shared keys).
\<close>

theorem get_not_read_only_counterexample:
  "enumerate_calls (MDict_init blank dict_ab []) = [([0x61], MVEncoded 1), ([0x62], MVEncoded 2)] \<and>
   enumerate_calls (fst (MDict_get (MDict_init blank dict_ab []) [0x62]))
     = [([0x62], MVEncoded 2), ([0x61], MVEncoded 1)] \<and>
   enumerate_calls (fst (MDict_get (MDict_init blank dict_ab []) [0x62]))
     \<noteq> enumerate_calls (MDict_init blank dict_ab []) \<and>
   wf_Dict (m_sharedKeys (MDict_init blank dict_shared [])) (m_dict (MDict_init blank dict_shared [])) \<and>
   map_find (m_map (MDict_init blank dict_shared [])) [0x61] = None \<and>
   MDict_contains (MDict_init blank dict_shared []) [0x61] \<and>
   MDict_get (MDict_init blank dict_shared []) [0x61] = (MDict_init blank dict_shared [], None)"
  by (simp add: enumerate_calls_eq MDict_get_def MDict_setInMap_def map_emplace_def
      MDict_contains_def wf_Dict_def
      MDict_init_def MCollection_init_def blank_def Dict_count_def dict_ab_def dict_shared_def
      Dict_iterator_def keyString_def map_find_def)

theorem get_read_only_up_to_order_witness:
  "wf_Dict (m_sharedKeys (MDict_init blank dict_ab [])) (m_dict (MDict_init blank dict_ab [])) \<and>
   map_find (m_map (MDict_init blank dict_ab [])) [0x62] = None \<and>
   Dict_get (m_dict (MDict_init blank dict_ab [])) [0x62] None = Some 2 \<and>
   snd (MDict_get (MDict_init blank dict_ab []) [0x62]) = Some (MVEncoded 2) \<and>
   map_find (m_map (fst (MDict_get (MDict_init blank dict_ab []) [0x62]))) [0x62] = Some (MVEncoded 2) \<and>
   m_newKeys (fst (MDict_get (MDict_init blank dict_ab []) [0x62])) = [[0x62]] \<and>
   MDict_count (fst (MDict_get (MDict_init blank dict_ab []) [0x62])) = 2 \<and>
   \<not> m_mutated (fst (MDict_get (MDict_init blank dict_ab []) [0x62])) \<and>
   MDict_contains (fst (MDict_get (MDict_init blank dict_ab []) [0x62])) [0x62] \<and>
   enumerate_calls (fst (MDict_get (MDict_init blank dict_ab []) [0x62]))
     = [([0x62], MVEncoded 2), ([0x61], MVEncoded 1)] \<and>
   mset (enumerate_calls (fst (MDict_get (MDict_init blank dict_ab []) [0x62])))
     = mset (enumerate_calls (MDict_init blank dict_ab [])) \<and>
   MDict_get (MDict_init blank dict_ab []) [0x63] = (MDict_init blank dict_ab [], None)"
proof -
  let ?d = "MDict_init blank dict_ab []"
  have d: "?d = \<lparr>m_mutated = False, m_sharedKeys = Some [[0x61]], m_ancestors = [],
                  m_dict = dict_ab, m_count = 2, m_map = [], m_newKeys = []\<rparr>"
    by (simp add: MDict_init_def MCollection_init_def blank_def Dict_count_def dict_ab_def)
  have wf: "wf_Dict (m_sharedKeys ?d) (m_dict ?d)"
    unfolding d by (simp add: wf_Dict_def dict_ab_def)
  have h: "map_find (m_map ?d) [0x62] = None" "Dict_get (m_dict ?d) [0x62] None = Some 2"
          "map_find (m_map ?d) [0x63] = None" "Dict_get (m_dict ?d) [0x63] (m_sharedKeys ?d) = None"
    unfolding d by (simp_all add: map_find_def dict_ab_def)
  have k: "MDict_count ?d = 2" "\<not> m_mutated ?d" "MDict_contains ?d [0x62]" "m_newKeys ?d = []"
    unfolding d by (simp_all add: MDict_count_def MDict_contains_def map_find_def dict_ab_def)
  have it: "Dict_iterator (m_dict ?d) (m_sharedKeys ?d) = [([0x61], 1), ([0x62], 2)]" "m_map ?d = []"
    unfolding d by (simp_all add: Dict_iterator_def keyString_def dict_ab_def)
  note b = get_read_only_up_to_order [OF wf, of "[0x62]"]
  note c = get_read_only_up_to_order [OF wf, of "[0x63]"]
  have 1: "snd (MDict_get ?d [0x62]) = Some (MVEncoded 2)"
          "map_find (m_map (fst (MDict_get ?d [0x62]))) [0x62] = Some (MVEncoded 2)"
          "m_newKeys (fst (MDict_get ?d [0x62])) = [[0x62]]"
    using b h(1,2) k(4) by simp_all
  have 2: "MDict_count (fst (MDict_get ?d [0x62])) = 2"
          "\<not> m_mutated (fst (MDict_get ?d [0x62]))"
          "MDict_contains (fst (MDict_get ?d [0x62])) [0x62]"
    using b k(1,2,3) by simp_all
  have 3: "enumerate_calls (fst (MDict_get ?d [0x62])) = [([0x62], MVEncoded 2), ([0x61], MVEncoded 1)]"
    using b h(1,2) by (simp add: it map_find_def)
  have 4: "mset (enumerate_calls (fst (MDict_get ?d [0x62]))) = mset (enumerate_calls ?d)"
    using b by blast
  have 5: "MDict_get ?d [0x63] = (?d, None)"
    using c h(3,4) by blast
  show ?thesis using wf h(1,2) 1 2 3 4 5 by blast
qed

end
